theory Spec2Isabelle
  imports Complex_Main
begin

section \<open>Data model of the rate limit manager\<close>

text \<open>
  The durable store is an SQLite file with one table per kind of row. A table is
  modelled as the list of its rows in insertion order. For the window table the
  AUTOINCREMENT primary key \<open>id\<close> of a row is its position in that list (none of the
  operations modelled here deletes a row), so \<open>UPDATE ... WHERE id = ?\<close> is an update
  at a position. Queue entries and patterns carry their own textual keys
  (\<open>queue_id\<close>, \<open>pattern_id\<close>), both declared UNIQUE in the schema.

  Timestamps are integers (milliseconds since the epoch, UTC); \<open>new Date()\<close> and
  \<open>Date.now()\<close> read one clock value \<open>now\<close> that is a parameter of every operation
  and does not advance while the operation runs. The columns \<open>last_updated\<close>,
  \<open>processed_at\<close>, \<open>timestamp\<close> and \<open>detected_at\<close>, which SQLite fills with
  \<open>CURRENT_TIMESTAMP\<close> and which no operation modelled here reads, hold that clock
  value; \<open>queued_at\<close>, which \<open>dequeue\<close> reads back, is modelled in the format that
  SQLite writes (section RequestQueue). JavaScript numbers that
  come from integer columns are \<open>int\<close>; the quotient \<open>percentUsed\<close> is an exact
  rational. \<open>randomUUID()\<close> is a parameter of the operation that calls it. Console
  output is not modelled.
\<close>

type_synonym time = int

datatype window_type = per_minute | per_hour | per_day

datatype tier = FreeTier | ProTier

datatype queue_status = pending | processing | completed | failed

datatype error = StoreError | QueueDisabled | QueueFull int int

text \<open>Rows of \<open>rate_limit_windows\<close> (migrations/001-init.sql).\<close>

record window =
  w_agent_wallet :: string
  w_provider :: string
  w_model :: "string option"
  w_window_type :: window_type
  window_start :: time
  window_end :: time
  request_count :: int
  token_count :: int
  limit_requests :: "int option"
  limit_tokens :: "int option"
  is_active :: bool
  last_updated :: time

text \<open>The five optional ceilings of a limit configuration (also the shape of the
  built-in default objects), and rows of \<open>rate_limit_configs\<close>.\<close>

record limits =
  requests_per_minute :: "int option"
  requests_per_hour :: "int option"
  requests_per_day :: "int option"
  tokens_per_minute :: "int option"
  tokens_per_day :: "int option"

record limit_config = limits +
  c_provider :: string
  c_model :: "string option"
  c_tier :: string

text \<open>Rows of \<open>agent_limit_quotas\<close>, keyed by the wallet.\<close>

record quota_row =
  q_tier :: string
  q_requests_per_minute :: int
  q_can_queue :: bool
  q_max_queue_size :: int
  q_auto_learning :: bool
  q_custom_limits :: bool
  q_priority_queuing :: bool
  q_paid_until :: "time option"

text \<open>The object returned by \<open>checkQuotaAvailable\<close>.\<close>

record quota_info =
  available :: bool
  tier :: tier
  can_queue :: bool
  max_queue_size :: int
  auto_learning :: bool
  custom_limits :: bool
  priority_queuing :: bool
  qi_requests_per_minute :: int
  paid_until :: "time option"

text \<open>The decision record that \<open>beforeProvider\<close> attaches to an admitted request, and
  the part of the request object that the manager reads.\<close>

record decision =
  d_request_id :: string
  d_agent_wallet :: string
  d_provider :: string
  d_model :: "string option"
  d_timestamp :: time
  d_allowed :: bool

record request_data =
  agentWallet :: "string option"
  rd_priority :: "int option"
  rate_limit_decision :: "decision option"

text \<open>Rows of \<open>request_queue\<close>.\<close>

record queue_entry =
  queue_id :: string
  qe_agent_wallet :: string
  qe_provider :: string
  qe_model :: "string option"
  queued_at :: time
  priority :: int
  retry_count :: int
  max_retries :: int
  qe_request_data :: request_data
  status :: queue_status
  processed_at :: "time option"
  qe_error :: "string option"

text \<open>Rows of \<open>rate_limit_events\<close>.\<close>

record event =
  e_agent_wallet :: string
  e_provider :: string
  e_model :: "string option"
  e_timestamp :: time
  event_type :: string
  e_window_type :: "window_type option"
  current_count :: "int option"
  limit_value :: "int option"
  percent_used :: "rat option"
  e_request_id :: "string option"
  was_queued :: bool

text \<open>Rows of \<open>usage_patterns\<close>, and the pattern objects that the analyses return (the
  fields that \<open>storePattern\<close> reads).\<close>

record pattern_row =
  pattern_id :: string
  p_agent_wallet :: "string option"
  p_pattern_type :: string
  avg_requests_per_minute :: "rat option"
  peak_requests_per_minute :: "int option"
  typical_window :: "string option"
  p_confidence :: rat
  p_suggested_limit :: "int option"
  p_suggested_queue_size :: "int option"
  detected_at :: time
  last_observed :: "time option"
  observation_count :: int

record pattern =
  pattern_type :: string
  description :: string
  typical_windows :: "string list option"
  pt_avg_requests_per_minute :: "rat option"
  pt_peak_requests_per_minute :: "int option"
  confidence :: rat
  suggested_limit :: "int option"
  suggested_queue_size :: "int option"

record db =
  configs :: "limit_config list"
  windows :: "window list"
  events :: "event list"
  queue :: "queue_entry list"
  patterns :: "pattern_row list"
  quotas :: "string \<rightharpoonup> quota_row"

section \<open>LimitStorage: quota accessors\<close>

text \<open>\<open>initializeQuota\<close> inserts the free-tier row; \<open>getQuota\<close> returns the stored row,
  initialising it on first reference.\<close>

definition default_quota :: quota_row where
  "default_quota =
     \<lparr>q_tier = ''free'', q_requests_per_minute = 100, q_can_queue = False,
      q_max_queue_size = 0, q_auto_learning = False, q_custom_limits = False,
      q_priority_queuing = False, q_paid_until = None\<rparr>"

definition getQuota :: "db \<Rightarrow> string \<Rightarrow> quota_row \<times> db" where
  "getQuota d agent =
     (case quotas d agent of
        Some q \<Rightarrow> (q, d)
      | None \<Rightarrow> (default_quota, d\<lparr>quotas := (quotas d)(agent \<mapsto> default_quota)\<rparr>))"

text \<open>\<open>checkQuotaAvailable\<close>: the tier is \<open>pro\<close> only while \<open>paid_until\<close> lies in the
  future; \<open>available\<close> is the literal \<open>true\<close>.\<close>

definition checkQuotaAvailable :: "db \<Rightarrow> time \<Rightarrow> string \<Rightarrow> quota_info \<times> db" where
  "checkQuotaAvailable d now agent =
     (let (quota, d1) = getQuota d agent;
          isPro = (q_tier quota = ''pro'' \<and>
                   (case q_paid_until quota of None \<Rightarrow> False | Some t \<Rightarrow> t > now))
      in (\<lparr>available = True,
           tier = (if isPro then ProTier else FreeTier),
           can_queue = (isPro \<and> q_can_queue quota),
           max_queue_size = (if isPro then q_max_queue_size quota else 0),
           auto_learning = (isPro \<and> q_auto_learning quota),
           custom_limits = (isPro \<and> q_custom_limits quota),
           priority_queuing = (isPro \<and> q_priority_queuing quota),
           qi_requests_per_minute = q_requests_per_minute quota,
           paid_until = q_paid_until quota\<rparr>, d1))"

section \<open>WindowTracker\<close>

text \<open>The result object of the would-exceed check.\<close>

record limit_check =
  exceeded :: bool
  current :: int
  limit :: int
  percentUsed :: rat

text \<open>JavaScript truthiness of a nullable integer: \<open>null\<close> and \<open>0\<close> are falsy. The
  operand of \<open>x && ...\<close> and of \<open>x || null\<close> is read through it.\<close>

definition truthy :: "int option \<Rightarrow> bool" where
  "truthy l = (case l of None \<Rightarrow> False | Some n \<Rightarrow> n \<noteq> 0)"

definition or_null :: "int option \<Rightarrow> int option" where
  "or_null l = (if truthy l then l else None)"

text \<open>\<open>checkWindowLimitDetailed\<close> (tracker, lines 62-77). The field \<open>exceeded\<close> of the
  model is true exactly when the JavaScript value \<open>requestExceeded || tokenExceeded\<close>
  is \<open>true\<close> (its falsy values are \<open>false\<close>, \<open>null\<close> and \<open>0\<close>).\<close>

definition checkWindowLimitDetailed :: "window \<Rightarrow> limit_check" where
  "checkWindowLimitDetailed w =
     (let requestExceeded =
            (case limit_requests w of None \<Rightarrow> False
             | Some l \<Rightarrow> l \<noteq> 0 \<and> request_count w \<ge> l);
          tokenExceeded =
            (case limit_tokens w of None \<Rightarrow> False
             | Some l \<Rightarrow> l \<noteq> 0 \<and> token_count w \<ge> l);
          cur = request_count w;
          lim = (case limit_requests w of None \<Rightarrow> 0 | Some l \<Rightarrow> l)
      in \<lparr>exceeded = (requestExceeded \<or> tokenExceeded),
          current = cur,
          limit = lim,
          percentUsed = (if lim > 0 then (of_int cur / of_int lim) * 100 else 0)\<rparr>)"

text \<open>\<open>getDefaultLimits\<close>: the built-in table; any provider or tier outside it falls
  back to the anthropic free entry (\<open>defaults[provider]?.[tier] || defaults.anthropic.free\<close>).\<close>

definition mk_limits ::
  "int option \<Rightarrow> int option \<Rightarrow> int option \<Rightarrow> int option \<Rightarrow> int option \<Rightarrow> limits" where
  "mk_limits rpm rph rpd tpm tpd =
     \<lparr>requests_per_minute = rpm, requests_per_hour = rph, requests_per_day = rpd,
      tokens_per_minute = tpm, tokens_per_day = tpd\<rparr>"

definition anthropic_free :: limits where
  "anthropic_free = mk_limits (Some 50) None (Some 1000) (Some 40000) (Some 300000)"

definition getDefaultLimits :: "string \<Rightarrow> tier \<Rightarrow> limits" where
  "getDefaultLimits prov t =
     (if prov = ''anthropic'' then
        (case t of FreeTier \<Rightarrow> anthropic_free
         | ProTier \<Rightarrow> mk_limits (Some 1000) None (Some 10000) (Some 80000) (Some 2500000))
      else if prov = ''openai'' then
        (case t of FreeTier \<Rightarrow> mk_limits (Some 60) None (Some 200) (Some 40000) None
         | ProTier \<Rightarrow> mk_limits (Some 500) None (Some 10000) (Some 150000) None)
      else if prov = ''google'' then
        (case t of FreeTier \<Rightarrow> mk_limits (Some 60) None (Some 1500) None None
         | ProTier \<Rightarrow> mk_limits (Some 1000) None (Some 15000) None None)
      else anthropic_free)"

definition tier_name :: "tier \<Rightarrow> string" where
  "tier_name t = (case t of FreeTier \<Rightarrow> ''free'' | ProTier \<Rightarrow> ''pro'')"

text \<open>\<open>getLimits\<close>: the tenant's effective tier, then the model-specific row (only when
  \<open>model\<close> is a non-empty string), then the provider-wide row, then the defaults.
  \<open>LIMIT 1\<close> takes the first matching row.\<close>

definition getLimits :: "db \<Rightarrow> time \<Rightarrow> string \<Rightarrow> string \<Rightarrow> string option \<Rightarrow> limits \<times> db" where
  "getLimits d now agent prov mdl =
     (let (quota, d1) = checkQuotaAvailable d now agent;
          t = tier quota;
          specific =
            (case mdl of
               None \<Rightarrow> None
             | Some m \<Rightarrow>
                 if m = [] then None
                 else find (\<lambda>c. c_provider c = prov \<and> c_model c = Some m \<and>
                                  c_tier c = tier_name t) (configs d1));
          found =
            (case specific of
               Some c \<Rightarrow> Some c
             | None \<Rightarrow> find (\<lambda>c. c_provider c = prov \<and> c_model c = None \<and>
                                   c_tier c = tier_name t) (configs d1))
      in (case found of
            None \<Rightarrow> (getDefaultLimits prov t, d1)
          | Some c \<Rightarrow> (limits.truncate c, d1)))"

text \<open>\<open>getLimitForWindowType\<close>: \<open>limits[field] || null\<close>. No configuration object has a
  \<open>tokens_per_hour\<close> field, so the hourly token limit is always \<open>null\<close>.\<close>

datatype limit_type = requests | tokens

definition getLimitForWindowType :: "limits \<Rightarrow> window_type \<Rightarrow> limit_type \<Rightarrow> int option" where
  "getLimitForWindowType ls wt lt =
     or_null
       (case wt of
          per_minute \<Rightarrow> (case lt of requests \<Rightarrow> requests_per_minute ls | tokens \<Rightarrow> tokens_per_minute ls)
        | per_hour \<Rightarrow> (case lt of requests \<Rightarrow> requests_per_hour ls | tokens \<Rightarrow> None)
        | per_day \<Rightarrow> (case lt of requests \<Rightarrow> requests_per_day ls | tokens \<Rightarrow> tokens_per_day ls))"

definition windowDurations :: "window_type \<Rightarrow> int" where
  "windowDurations wt =
     (case wt of per_minute \<Rightarrow> 60 * 1000 | per_hour \<Rightarrow> 60 * 60 * 1000
      | per_day \<Rightarrow> 24 * 60 * 60 * 1000)"

definition calculateWindowEnd :: "time \<Rightarrow> window_type \<Rightarrow> time" where
  "calculateWindowEnd start wt = start + windowDurations wt"

text \<open>The schema's UNIQUE(agent_wallet, provider, model, window_type, window_start): an
  insert is refused when a row agrees on all five columns (NULL models never
  conflict in SQLite).\<close>

definition window_conflict :: "window \<Rightarrow> window \<Rightarrow> bool" where
  "window_conflict r w \<longleftrightarrow>
     w_agent_wallet w = w_agent_wallet r \<and> w_provider w = w_provider r \<and>
     w_model r \<noteq> None \<and> w_model w = w_model r \<and>
     w_window_type w = w_window_type r \<and> window_start w = window_start r"

text \<open>\<open>createWindow\<close>: a row with both counts 0, starting now, active. The result is the
  new row with its id.\<close>

definition createWindow ::
  "db \<Rightarrow> time \<Rightarrow> string \<Rightarrow> string \<Rightarrow> string option \<Rightarrow> window_type
     \<Rightarrow> (error + nat \<times> window) \<times> db" where
  "createWindow d now agent prov mdl wt =
     (let (ls, d1) = getLimits d now agent prov mdl;
          limitRequests = getLimitForWindowType ls wt requests;
          limitTokens = getLimitForWindowType ls wt tokens;
          windowStart = now;
          windowEnd = calculateWindowEnd windowStart wt;
          row = \<lparr>w_agent_wallet = agent, w_provider = prov, w_model = mdl,
                 w_window_type = wt, window_start = windowStart, window_end = windowEnd,
                 request_count = 0, token_count = 0,
                 limit_requests = limitRequests, limit_tokens = limitTokens,
                 is_active = True, last_updated = now\<rparr>
      in if list_ex (window_conflict row) (windows d1) then (Inl StoreError, d1)
         else (Inr (length (windows d1), row), d1\<lparr>windows := windows d1 @ [row]\<rparr>))"

text \<open>An update of the row with a given id; no row, no change.\<close>

definition update_window :: "nat \<Rightarrow> (window \<Rightarrow> window) \<Rightarrow> db \<Rightarrow> db" where
  "update_window i f d =
     (if i < length (windows d) then d\<lparr>windows := (windows d)[i := f (windows d ! i)]\<rparr>
      else d)"

text \<open>The SELECT of \<open>getCurrentWindow\<close>: the active rows of the key, the one with the
  greatest \<open>window_start\<close> first (among equal starts, the earliest inserted).\<close>

definition window_matches ::
  "string \<Rightarrow> string \<Rightarrow> string option \<Rightarrow> window_type \<Rightarrow> window \<Rightarrow> bool" where
  "window_matches agent prov mdl wt w \<longleftrightarrow>
     w_agent_wallet w = agent \<and> w_provider w = prov \<and> w_model w = mdl \<and>
     w_window_type w = wt \<and> is_active w"

fun latest :: "(nat \<times> window) list \<Rightarrow> (nat \<times> window) option" where
  "latest [] = None"
| "latest (x # xs) =
     (case latest xs of
        None \<Rightarrow> Some x
      | Some y \<Rightarrow> if window_start (snd y) > window_start (snd x) then Some y else Some x)"

definition select_active ::
  "db \<Rightarrow> string \<Rightarrow> string \<Rightarrow> string option \<Rightarrow> window_type \<Rightarrow> (nat \<times> window) option" where
  "select_active d agent prov mdl wt =
     latest (filter (\<lambda>(i, w). window_matches agent prov mdl wt w) (enumerate 0 (windows d)))"

definition getCurrentWindow ::
  "db \<Rightarrow> time \<Rightarrow> string \<Rightarrow> string \<Rightarrow> string option \<Rightarrow> window_type
     \<Rightarrow> (error + nat \<times> window) \<times> db" where
  "getCurrentWindow d now agent prov mdl wt =
     (case select_active d agent prov mdl wt of
        Some iw \<Rightarrow> (Inr iw, d)
      | None \<Rightarrow> createWindow d now agent prov mdl wt)"

text \<open>\<open>rotateWindow\<close>: deactivate the old row, then create a new one for its key.\<close>

definition rotateWindow :: "db \<Rightarrow> time \<Rightarrow> nat \<times> window \<Rightarrow> (error + nat \<times> window) \<times> db" where
  "rotateWindow d now old =
     (let d1 = update_window (fst old) (\<lambda>w. w\<lparr>is_active := False\<rparr>) d
      in createWindow d1 now (w_agent_wallet (snd old)) (w_provider (snd old))
           (w_model (snd old)) (w_window_type (snd old)))"

text \<open>\<open>wouldExceedLimit\<close>: rotation when \<open>now > window_end\<close>; any error is caught and
  answered conservatively. The \<open>tier\<close> argument is not read by the source.\<close>

definition conservative :: limit_check where
  "conservative = \<lparr>exceeded = True, current = 0, limit = 0, percentUsed = 100\<rparr>"

definition wouldExceedLimit ::
  "db \<Rightarrow> time \<Rightarrow> string \<Rightarrow> string \<Rightarrow> string option \<Rightarrow> window_type \<Rightarrow> tier
     \<Rightarrow> limit_check \<times> db" where
  "wouldExceedLimit d now agent prov mdl wt t =
     (case getCurrentWindow d now agent prov mdl wt of
        (Inl e, d1) \<Rightarrow> (conservative, d1)
      | (Inr win, d1) \<Rightarrow>
          if now > window_end (snd win) then
            (case rotateWindow d1 now win of
               (Inl e, d2) \<Rightarrow> (conservative, d2)
             | (Inr _, d2) \<Rightarrow>
                 (case getCurrentWindow d2 now agent prov mdl wt of
                    (Inl e, d3) \<Rightarrow> (conservative, d3)
                  | (Inr newWindow, d3) \<Rightarrow> (checkWindowLimitDetailed (snd newWindow), d3)))
          else (checkWindowLimitDetailed (snd win), d1))"

text \<open>\<open>updateWindowCounts\<close> and \<open>incrementWindow\<close>; the latter rethrows.\<close>

definition updateWindowCounts :: "db \<Rightarrow> time \<Rightarrow> nat \<Rightarrow> int \<Rightarrow> db" where
  "updateWindowCounts d now windowId toks =
     update_window windowId
       (\<lambda>w. w\<lparr>request_count := request_count w + 1,
              token_count := token_count w + toks, last_updated := now\<rparr>) d"

definition incrementWindow ::
  "db \<Rightarrow> time \<Rightarrow> string \<Rightarrow> string \<Rightarrow> string option \<Rightarrow> window_type \<Rightarrow> int
     \<Rightarrow> (error + unit) \<times> db" where
  "incrementWindow d now agent prov mdl wt toks =
     (case getCurrentWindow d now agent prov mdl wt of
        (Inl e, d1) \<Rightarrow> (Inl e, d1)
      | (Inr win, d1) \<Rightarrow>
          if now > window_end (snd win) then
            (case rotateWindow d1 now win of
               (Inl e, d2) \<Rightarrow> (Inl e, d2)
             | (Inr _, d2) \<Rightarrow>
                 (case getCurrentWindow d2 now agent prov mdl wt of
                    (Inl e, d3) \<Rightarrow> (Inl e, d3)
                  | (Inr newWindow, d3) \<Rightarrow>
                      (Inr (), updateWindowCounts d3 now (fst newWindow) toks)))
          else (Inr (), updateWindowCounts d1 now (fst win) toks))"

text \<open>\<open>updateTokenCount\<close>: the active row of the key (created when there is none), with
  no expiry check; errors are logged and swallowed.\<close>

definition updateTokenCount ::
  "db \<Rightarrow> time \<Rightarrow> string \<Rightarrow> string \<Rightarrow> string option \<Rightarrow> window_type \<Rightarrow> int \<Rightarrow> db" where
  "updateTokenCount d now agent prov mdl wt toks =
     (case getCurrentWindow d now agent prov mdl wt of
        (Inl e, d1) \<Rightarrow> d1
      | (Inr win, d1) \<Rightarrow>
          update_window (fst win)
            (\<lambda>w. w\<lparr>token_count := token_count w + toks, last_updated := now\<rparr>) d1)"

section \<open>RequestQueue\<close>

definition defaultPriority :: int where
  "defaultPriority = 5"

definition defaultMaxRetries :: int where
  "defaultMaxRetries = 3"

definition maxQueueAge :: int where
  "maxQueueAge = 30 * 60 * 1000"

text \<open>The column \<open>queued_at\<close> is not written by \<open>enqueue\<close>: SQLite fills it with its
  default \<open>CURRENT_TIMESTAMP\<close>, the text \<open>YYYY-MM-DD HH:MM:SS\<close> of the current UTC time
  in whole seconds. A stored value is modelled by the instant that this text denotes
  in UTC. \<open>dequeue\<close> reads the text back with \<open>new Date(text)\<close>; JavaScript takes a
  date-time text without a zone designator as local time, so on a host whose local
  time is UTC plus \<open>utcOffset\<close> milliseconds the instant that it obtains is the stored
  one minus \<open>utcOffset\<close>. The offset of the host is a parameter of \<open>dequeue\<close> and of
  its callers.\<close>

definition current_timestamp :: "time \<Rightarrow> time" where
  "current_timestamp now = (now div 1000) * 1000"

definition parse_local :: "int \<Rightarrow> time \<Rightarrow> time" where
  "parse_local utcOffset t = t - utcOffset"

text \<open>\<open>getQueueSize\<close>: the tenant's pending rows.\<close>

definition getQueueSize :: "db \<Rightarrow> string \<Rightarrow> int" where
  "getQueueSize d agent =
     int (length (filter (\<lambda>q. qe_agent_wallet q = agent \<and> status q = pending) (queue d)))"

text \<open>\<open>enqueue\<close> (queue, lines 33-85). The two refusals are JavaScript errors with the
  messages "Request queuing not available for free tier" and "Queue full (n/max)";
  an insert under a \<open>queue_id\<close> that is already stored violates the UNIQUE constraint.\<close>

definition enqueue ::
  "db \<Rightarrow> time \<Rightarrow> string \<Rightarrow> string \<Rightarrow> string option \<Rightarrow> request_data \<Rightarrow> int option \<Rightarrow> string
     \<Rightarrow> (error + string) \<times> db" where
  "enqueue d now agent prov mdl requestData pri uuid =
     (let (quota, d1) = checkQuotaAvailable d now agent
      in if \<not> can_queue quota then (Inl QueueDisabled, d1)
         else
           (let currentSize = getQueueSize d1 agent
            in if currentSize \<ge> max_queue_size quota
               then (Inl (QueueFull currentSize (max_queue_size quota)), d1)
               else
                 (let queueId = uuid;
                      actualPriority = (case pri of Some p \<Rightarrow> p | None \<Rightarrow> defaultPriority);
                      row = \<lparr>queue_id = queueId, qe_agent_wallet = agent, qe_provider = prov,
                             qe_model = mdl, queued_at = current_timestamp now,
                             priority = actualPriority,
                             retry_count = 0, max_retries = defaultMaxRetries,
                             qe_request_data = requestData, status = pending,
                             processed_at = None, qe_error = None\<rparr>
                  in if list_ex (\<lambda>q. queue_id q = queueId) (queue d1)
                     then (Inl StoreError, d1)
                     else (Inr queueId, d1\<lparr>queue := queue d1 @ [row]\<rparr>))))"

text \<open>\<open>complete\<close>: the UPDATE of the rows with the given \<open>queue_id\<close>.\<close>

definition complete :: "db \<Rightarrow> time \<Rightarrow> string \<Rightarrow> bool \<Rightarrow> string option \<Rightarrow> db" where
  "complete d now queueId success err =
     d\<lparr>queue :=
         map (\<lambda>q. if queue_id q = queueId
                   then q\<lparr>status := (if success then completed else failed),
                          qe_error := err,
                          retry_count := retry_count q + (if success then 0 else 1),
                          processed_at := Some now\<rparr>
                   else q) (queue d)\<rparr>"

text \<open>The SELECT of \<open>dequeue\<close>: pending rows with retries left, of the given tenant when
  \<open>agentWallet\<close> is a non-empty string; \<open>ORDER BY priority DESC, queued_at ASC LIMIT 1\<close>
  (among equal keys, the earliest inserted).\<close>

definition dequeue_candidates :: "db \<Rightarrow> string option \<Rightarrow> queue_entry list" where
  "dequeue_candidates d agentOpt =
     filter (\<lambda>q. status q = pending \<and> retry_count q < max_retries q \<and>
                 (case agentOpt of None \<Rightarrow> True
                  | Some a \<Rightarrow> a = [] \<or> qe_agent_wallet q = a)) (queue d)"

fun first_in_order :: "queue_entry list \<Rightarrow> queue_entry option" where
  "first_in_order [] = None"
| "first_in_order (x # xs) =
     (case first_in_order xs of
        None \<Rightarrow> Some x
      | Some y \<Rightarrow>
          if priority y > priority x \<or> (priority y = priority x \<and> queued_at y < queued_at x)
          then Some y else Some x)"

definition mark_processing :: "db \<Rightarrow> time \<Rightarrow> string \<Rightarrow> db" where
  "mark_processing d now queueId =
     d\<lparr>queue :=
         map (\<lambda>q. if queue_id q = queueId
                   then q\<lparr>status := processing, processed_at := Some now\<rparr>
                   else q) (queue d)\<rparr>"

lemma first_in_order_mem: "first_in_order xs = Some x \<Longrightarrow> x \<in> set xs"
  by (induction xs arbitrary: x) (auto split: option.splits if_splits)

lemma pending_after_failure:
  "(\<lambda>r. status r = pending) \<circ>
     (\<lambda>r. if queue_id r = k
           then r\<lparr>status := failed, qe_error := e, retry_count := retry_count r + 1,
                  processed_at := Some t\<rparr>
           else r)
   = (\<lambda>r. status r = pending \<and> queue_id r \<noteq> k)"
  by (auto simp: fun_eq_iff)

lemma pending_decreases:
  assumes "first_in_order (dequeue_candidates d agentOpt) = Some q"
  shows "length (filter (\<lambda>r. status r = pending) (queue (complete d now (queue_id q) False err)))
         < length (filter (\<lambda>r. status r = pending) (queue d))"
proof -
  let ?P = "\<lambda>r. status r = pending"
  let ?Q = "\<lambda>r. queue_id r \<noteq> queue_id q"
  from assms have "q \<in> set (dequeue_candidates d agentOpt)"
    by (rule first_in_order_mem)
  then have q: "q \<in> set (filter ?P (queue d))"
    by (auto simp: dequeue_candidates_def)
  have "length (filter ?P (queue (complete d now (queue_id q) False err)))
        = length (filter ?Q (filter ?P (queue d)))"
    by (simp add: complete_def pending_after_failure)
  moreover have "length (filter ?Q (filter ?P (queue d))) < length (filter ?P (queue d))"
    using q by (intro length_filter_less [of q]) auto
  ultimately show ?thesis by simp
qed

text \<open>\<open>dequeue\<close> (queue, lines 92-158): the age of the selected entry is the clock
  value minus the instant that \<open>new Date(queued.queued_at)\<close> yields. An entry whose age
  so computed exceeds \<open>maxQueueAge\<close> is completed as a failure with the error text
  "Request expired in queue" and the query is run again; otherwise the entry is
  marked \<open>processing\<close> and returned as it was selected.\<close>

function dequeue ::
  "db \<Rightarrow> time \<Rightarrow> int \<Rightarrow> string option \<Rightarrow> queue_entry option \<times> db" where
  "dequeue d now utcOffset agentOpt =
     (case first_in_order (dequeue_candidates d agentOpt) of
        None \<Rightarrow> (None, d)
      | Some queued \<Rightarrow>
          (let age = now - parse_local utcOffset (queued_at queued)
           in if age > maxQueueAge
              then dequeue (complete d now (queue_id queued) False
                              (Some ''Request expired in queue'')) now utcOffset agentOpt
              else (Some queued, mark_processing d now (queue_id queued))))"
  by pat_completeness auto
termination
  by (relation "measure (\<lambda>(d, now, utcOffset, agentOpt).
                           length (filter (\<lambda>r. status r = pending) (queue d)))")
     (auto intro: pending_decreases)

section \<open>LimitStorage: events and patterns\<close>

definition str_or_null :: "string option \<Rightarrow> string option" where
  "str_or_null s = (case s of None \<Rightarrow> None | Some x \<Rightarrow> if x = [] then None else Some x)"

definition rat_or_null :: "rat option \<Rightarrow> rat option" where
  "rat_or_null r = (case r of None \<Rightarrow> None | Some x \<Rightarrow> if x = 0 then None else Some x)"

text \<open>\<open>recordEvent\<close>: a plain INSERT; absent and falsy fields are stored as NULL.\<close>

definition recordEvent :: "db \<Rightarrow> time \<Rightarrow> event \<Rightarrow> db" where
  "recordEvent d now eventData =
     d\<lparr>events := events d @
         [eventData\<lparr>e_timestamp := now,
                    e_model := str_or_null (e_model eventData),
                    current_count := or_null (current_count eventData),
                    limit_value := or_null (limit_value eventData),
                    percent_used := rat_or_null (percent_used eventData),
                    e_request_id := str_or_null (e_request_id eventData)\<rparr>]\<rparr>"

section \<open>PatternDetector: persistence\<close>

fun join_comma :: "string list \<Rightarrow> string" where
  "join_comma [] = []"
| "join_comma [x] = x"
| "join_comma (x # y # ys) = x @ '','' @ join_comma (y # ys)"

text \<open>\<open>storePattern\<close> (detector, lines 373-402): a plain INSERT under a fresh
  \<open>randomUUID()\<close>; a failing INSERT is logged and swallowed.\<close>

definition storePattern :: "db \<Rightarrow> time \<Rightarrow> string \<Rightarrow> pattern \<Rightarrow> string \<Rightarrow> db" where
  "storePattern d now agent pat uuid =
     (let patternId = uuid;
          row = \<lparr>pattern_id = patternId,
                 p_agent_wallet = Some agent,
                 p_pattern_type = pattern_type pat,
                 avg_requests_per_minute = rat_or_null (pt_avg_requests_per_minute pat),
                 peak_requests_per_minute = or_null (pt_peak_requests_per_minute pat),
                 typical_window =
                   Some (case typical_windows pat of
                           None \<Rightarrow> description pat
                         | Some ws \<Rightarrow> if join_comma ws = [] then description pat
                                      else join_comma ws),
                 p_confidence = confidence pat,
                 p_suggested_limit = or_null (suggested_limit pat),
                 p_suggested_queue_size = or_null (suggested_queue_size pat),
                 detected_at = now, last_observed = None, observation_count = 1\<rparr>
      in if list_ex (\<lambda>r. pattern_id r = patternId) (patterns d) then d
         else d\<lparr>patterns := patterns d @ [row]\<rparr>)"

definition minEventsForPattern :: int where
  "minEventsForPattern = 10"

definition minPatternConfidence :: rat where
  "minPatternConfidence = 6 / 10"

text \<open>The persistence of \<open>analyzeUsage\<close> (detector, lines 31-86). The three analyses
  (hourly, weekly, burst) are floating-point statistics over the events; their
  results are taken as given, in the order in which the source computes them, each
  with the UUID that \<open>storePattern\<close> draws for it. The result is the list of retained
  patterns and the store.\<close>

fun store_retained :: "db \<Rightarrow> time \<Rightarrow> string \<Rightarrow> (pattern \<times> string) list \<Rightarrow> pattern list \<times> db" where
  "store_retained d now agent [] = ([], d)"
| "store_retained d now agent ((pat, uuid) # rest) =
     (if confidence pat \<ge> minPatternConfidence
      then (let (ps, d1) = store_retained (storePattern d now agent pat uuid) now agent rest
            in (pat # ps, d1))
      else store_retained d now agent rest)"

definition analyzeUsage ::
  "db \<Rightarrow> time \<Rightarrow> string \<Rightarrow> int \<Rightarrow> (pattern \<times> string) list \<Rightarrow> pattern list \<times> db" where
  "analyzeUsage d now agent n_events analyses =
     (if n_events < minEventsForPattern then ([], d)
      else store_retained d now agent analyses)"

section \<open>RateLimitManager\<close>

text \<open>What \<open>beforeProvider\<close> does to its caller: it returns (the request is admitted and
  carries the decision record) or throws. The thrown values are JavaScript errors
  told apart by their messages: "Quota exceeded", "Queue full (n/max)",
  "Request queued (ID: ...)", "Rate limit exceeded for ...", or an error of a callee
  that is propagated. The in-memory session roster is not modelled.\<close>

datatype outcome =
    Admitted decision
  | QuotaExceededError
  | QueueFullError int int window_type limit_check
  | RequestQueuedError string window_type limit_check
  | RateLimitExceededError window_type limit_check
  | Propagated error

definition all_windows :: "window_type list" where
  "all_windows = [per_minute, per_hour, per_day]"

text \<open>The loop over the window types that stops at the first exceeded one.\<close>

fun check_windows ::
  "db \<Rightarrow> time \<Rightarrow> string \<Rightarrow> string \<Rightarrow> string option \<Rightarrow> tier \<Rightarrow> window_type list
     \<Rightarrow> (window_type \<times> limit_check) option \<times> db" where
  "check_windows d now agent prov mdl t [] = (None, d)"
| "check_windows d now agent prov mdl t (wt # wts) =
     (let (wouldExceed, d1) = wouldExceedLimit d now agent prov mdl wt t
      in if exceeded wouldExceed then (Some (wt, wouldExceed), d1)
         else check_windows d1 now agent prov mdl t wts)"

text \<open>The loop that increments every window type with zero tokens; an error of
  \<open>incrementWindow\<close> ends it.\<close>

fun increment_windows ::
  "db \<Rightarrow> time \<Rightarrow> string \<Rightarrow> string \<Rightarrow> string option \<Rightarrow> window_type list
     \<Rightarrow> (error + unit) \<times> db" where
  "increment_windows d now agent prov mdl [] = (Inr (), d)"
| "increment_windows d now agent prov mdl (wt # wts) =
     (case incrementWindow d now agent prov mdl wt 0 of
        (Inl e, d1) \<Rightarrow> (Inl e, d1)
      | (Inr _, d1) \<Rightarrow> increment_windows d1 now agent prov mdl wts)"

definition wallet_of :: "request_data \<Rightarrow> string \<Rightarrow> string" where
  "wallet_of requestData agentId =
     (case agentWallet requestData of
        None \<Rightarrow> agentId
      | Some a \<Rightarrow> if a = [] then agentId else a)"

definition event_data ::
  "string \<Rightarrow> string \<Rightarrow> string option \<Rightarrow> string \<Rightarrow> (window_type \<times> limit_check) option
     \<Rightarrow> string \<Rightarrow> bool \<Rightarrow> event" where
  "event_data agent prov mdl kind wc requestId wasQueued =
     \<lparr>e_agent_wallet = agent, e_provider = prov, e_model = mdl, e_timestamp = 0,
      event_type = kind,
      e_window_type = map_option fst wc,
      current_count = map_option (current \<circ> snd) wc,
      limit_value = map_option (limit \<circ> snd) wc,
      percent_used = map_option (percentUsed \<circ> snd) wc,
      e_request_id = Some requestId,
      was_queued = wasQueued\<rparr>"

text \<open>\<open>beforeProvider\<close> (manager, lines 61-199). \<open>uuid\<close> is the identifier that
  \<open>enqueue\<close> draws when the request is queued.\<close>

definition beforeProvider ::
  "db \<Rightarrow> time \<Rightarrow> string \<Rightarrow> string \<Rightarrow> string option \<Rightarrow> string \<Rightarrow> string \<Rightarrow> request_data
     \<Rightarrow> string \<Rightarrow> outcome \<times> db" where
  "beforeProvider d now requestId prov mdl agentId sessionId requestData uuid =
     (let agent = wallet_of requestData agentId;
          (quota, d1) = checkQuotaAvailable d now agent
      in if \<not> available quota then (QuotaExceededError, d1)
         else
           (case check_windows d1 now agent prov mdl (tier quota) all_windows of
              (Some (windowType, wouldExceed), d2) \<Rightarrow>
                if tier quota = ProTier \<and> can_queue quota then
                  (let queueSize = getQueueSize d2 agent
                   in if queueSize \<ge> max_queue_size quota
                      then (QueueFullError queueSize (max_queue_size quota) windowType wouldExceed, d2)
                      else
                        (case enqueue d2 now agent prov mdl requestData
                                (Some (case rd_priority requestData of
                                         None \<Rightarrow> 5
                                       | Some p \<Rightarrow> if p = 0 then 5 else p)) uuid of
                           (Inl e, d3) \<Rightarrow> (Propagated e, d3)
                         | (Inr queueId, d3) \<Rightarrow>
                             (RequestQueuedError queueId windowType wouldExceed,
                              recordEvent d3 now
                                (event_data agent prov mdl ''queued''
                                   (Some (windowType, wouldExceed)) requestId True))))
                else
                  (RateLimitExceededError windowType wouldExceed,
                   recordEvent d2 now
                     (event_data agent prov mdl ''blocked''
                        (Some (windowType, wouldExceed)) requestId False))
            | (None, d2) \<Rightarrow>
                (let d3 = recordEvent d2 now
                            (event_data agent prov mdl ''allowed'' None requestId False)
                 in case increment_windows d3 now agent prov mdl all_windows of
                      (Inl e, d4) \<Rightarrow> (Propagated e, d4)
                    | (Inr _, d4) \<Rightarrow>
                        (Admitted \<lparr>d_request_id = requestId, d_agent_wallet = agent,
                                   d_provider = prov, d_model = mdl, d_timestamp = now,
                                   d_allowed = True\<rparr>, d4))))"

text \<open>The drain loop of \<open>processQueue\<close> (manager, lines 337-389). Its result lists what
  the source logs for each iteration: an entry processed or an entry re-queued. The
  loop counter is the first argument; \<open>dequeue()\<close> is called without a wallet.
  \<open>utcOffset\<close> is the offset of the host's local time that \<open>dequeue\<close> depends on.\<close>

datatype drain_step = Processed queue_entry | Requeued queue_entry

definition repend :: "db \<Rightarrow> string \<Rightarrow> db" where
  "repend d queueId =
     d\<lparr>queue := map (\<lambda>q. if queue_id q = queueId then q\<lparr>status := pending\<rparr> else q) (queue d)\<rparr>"

fun drain :: "nat \<Rightarrow> db \<Rightarrow> time \<Rightarrow> int \<Rightarrow> drain_step list \<times> db" where
  "drain 0 d now utcOffset = ([], d)"
| "drain (Suc n) d now utcOffset =
     (case dequeue d now utcOffset None of
        (None, d1) \<Rightarrow> ([], d1)
      | (Some queued, d1) \<Rightarrow>
          (let (wouldExceed, d2) =
                 wouldExceedLimit d1 now (qe_agent_wallet queued) (qe_provider queued)
                   (qe_model queued) per_minute ProTier
           in if \<not> exceeded wouldExceed then
                (let d3 = complete d2 now (queue_id queued) True None
                 in case increment_windows d3 now (qe_agent_wallet queued) (qe_provider queued)
                           (qe_model queued) all_windows of
                      (Inl e, d4) \<Rightarrow> ([], d4)
                    | (Inr _, d4) \<Rightarrow>
                        (let (steps, d5) = drain n d4 now utcOffset
                         in (Processed queued # steps, d5)))
              else ([Requeued queued], repend d2 (queue_id queued))))"

definition processQueue :: "db \<Rightarrow> time \<Rightarrow> int \<Rightarrow> string \<Rightarrow> drain_step list \<times> db" where
  "processQueue d now utcOffset agent =
     (let queueSize = getQueueSize d agent
      in if queueSize = 0 then ([], d)
         else drain (nat (min 5 queueSize)) d now utcOffset)"

text \<open>The part of a provider response that \<open>afterProvider\<close> reads:
  \<open>_cost_metrics.tokens_total\<close> and \<open>usage.total_tokens\<close>.\<close>

record response =
  cost_metrics_tokens_total :: "int option"
  usage_total_tokens :: "int option"

definition tokensUsed :: "response \<Rightarrow> int" where
  "tokensUsed r =
     (case or_null (cost_metrics_tokens_total r) of
        Some n \<Rightarrow> n
      | None \<Rightarrow> (case or_null (usage_total_tokens r) of Some n \<Rightarrow> n | None \<Rightarrow> 0))"

fun update_token_counts ::
  "db \<Rightarrow> time \<Rightarrow> string \<Rightarrow> string \<Rightarrow> string option \<Rightarrow> int \<Rightarrow> window_type list \<Rightarrow> db" where
  "update_token_counts d now agent prov mdl toks [] = d"
| "update_token_counts d now agent prov mdl toks (wt # wts) =
     update_token_counts (updateTokenCount d now agent prov mdl wt toks) now agent prov mdl toks wts"

text \<open>\<open>afterProvider\<close> (manager, lines 213-250): nothing without an allowed decision;
  otherwise the token update of the three windows, then the queue drain for a pro
  tenant that may queue.\<close>

definition afterProvider ::
  "db \<Rightarrow> time \<Rightarrow> int \<Rightarrow> string \<Rightarrow> string \<Rightarrow> string option \<Rightarrow> string \<Rightarrow> string
     \<Rightarrow> request_data \<Rightarrow> response \<Rightarrow> drain_step list \<times> db" where
  "afterProvider d now utcOffset requestId prov mdl agentId sessionId request resp =
     (let agent = wallet_of request agentId
      in case rate_limit_decision request of
           None \<Rightarrow> ([], d)
         | Some dec \<Rightarrow>
             if \<not> d_allowed dec then ([], d)
             else
               (let d1 = update_token_counts d now agent prov mdl (tokensUsed resp) all_windows;
                    (quota, d2) = checkQuotaAvailable d1 now agent
                in if tier quota = ProTier \<and> can_queue quota
                   then processQueue d2 now utcOffset agent
                   else ([], d2)))"

section \<open>Notions used in the statements\<close>

text \<open>The key of a window (tenant, provider, model, horizon), and the request and
  token totals over all rows of a key, active or not.\<close>

definition same_key :: "string \<Rightarrow> string \<Rightarrow> string option \<Rightarrow> window_type \<Rightarrow> window \<Rightarrow> bool" where
  "same_key agent prov mdl wt w \<longleftrightarrow>
     w_agent_wallet w = agent \<and> w_provider w = prov \<and> w_model w = mdl \<and> w_window_type w = wt"

definition total_requests :: "db \<Rightarrow> string \<Rightarrow> string \<Rightarrow> string option \<Rightarrow> window_type \<Rightarrow> int" where
  "total_requests d agent prov mdl wt =
     (\<Sum>w\<leftarrow>windows d. if same_key agent prov mdl wt w then request_count w else 0)"

definition total_tokens :: "db \<Rightarrow> string \<Rightarrow> string \<Rightarrow> string option \<Rightarrow> window_type \<Rightarrow> int" where
  "total_tokens d agent prov mdl wt =
     (\<Sum>w\<leftarrow>windows d. if same_key agent prov mdl wt w then token_count w else 0)"

text \<open>A freshly created window of a key: active, both counts 0, aligned to
  \<open>[now, now + duration)\<close>.\<close>

definition fresh_row :: "time \<Rightarrow> string \<Rightarrow> string \<Rightarrow> string option \<Rightarrow> window_type \<Rightarrow> window \<Rightarrow> bool" where
  "fresh_row now agent prov mdl wt w \<longleftrightarrow>
     same_key agent prov mdl wt w \<and> is_active w \<and>
     window_start w = now \<and> window_end w = now + windowDurations wt \<and>
     request_count w = 0 \<and> token_count w = 0"

text \<open>Well-formedness of the window table at the instant \<open>now\<close>: no window ends before
  it starts, and a window that starts at this very instant is still active (windows
  are created at the current instant and rotated only after their end).\<close>

definition windows_ok :: "db \<Rightarrow> time \<Rightarrow> bool" where
  "windows_ok d now \<longleftrightarrow>
     list_all (\<lambda>w. window_start w \<le> window_end w \<and> (window_start w \<noteq> now \<or> is_active w))
       (windows d)"

text \<open>The common prefix of \<open>wouldExceedLimit\<close> and \<open>incrementWindow\<close>: fetch the current
  window and rotate it when it has expired. Both functions are shown below to be
  this prefix followed by their own last step.\<close>

definition ensure_current ::
  "db \<Rightarrow> time \<Rightarrow> string \<Rightarrow> string \<Rightarrow> string option \<Rightarrow> window_type
     \<Rightarrow> (error + nat \<times> window) \<times> db" where
  "ensure_current d now agent prov mdl wt =
     (case getCurrentWindow d now agent prov mdl wt of
        (Inl e, d1) \<Rightarrow> (Inl e, d1)
      | (Inr win, d1) \<Rightarrow>
          if now > window_end (snd win) then
            (case rotateWindow d1 now win of
               (Inl e, d2) \<Rightarrow> (Inl e, d2)
             | (Inr _, d2) \<Rightarrow> getCurrentWindow d2 now agent prov mdl wt)
          else (Inr win, d1))"

text \<open>The three ways in which the current window of a key is obtained: the stored
  active window is still running; there is none and one is created; the stored one
  has expired and is rotated.\<close>

definition kept :: "db \<Rightarrow> time \<Rightarrow> string \<Rightarrow> string \<Rightarrow> string option \<Rightarrow> window_type
     \<Rightarrow> nat \<Rightarrow> window \<Rightarrow> window list \<Rightarrow> bool" where
  "kept d now agent prov mdl wt i w ws \<longleftrightarrow>
     select_active d agent prov mdl wt = Some (i, w) \<and> now \<le> window_end w \<and> ws = windows d"

definition created :: "db \<Rightarrow> time \<Rightarrow> string \<Rightarrow> string \<Rightarrow> string option \<Rightarrow> window_type
     \<Rightarrow> nat \<Rightarrow> window \<Rightarrow> window list \<Rightarrow> bool" where
  "created d now agent prov mdl wt i w ws \<longleftrightarrow>
     select_active d agent prov mdl wt = None \<and> fresh_row now agent prov mdl wt w \<and>
     i = length (windows d) \<and> ws = windows d @ [w]"

definition rotated :: "db \<Rightarrow> time \<Rightarrow> string \<Rightarrow> string \<Rightarrow> string option \<Rightarrow> window_type
     \<Rightarrow> nat \<Rightarrow> window \<Rightarrow> window list \<Rightarrow> bool" where
  "rotated d now agent prov mdl wt i w ws \<longleftrightarrow>
     (\<exists>j old. select_active d agent prov mdl wt = Some (j, old) \<and> now > window_end old \<and>
        fresh_row now agent prov mdl wt w \<and> i = length (windows d) \<and>
        ws = (windows d)[j := old\<lparr>is_active := False\<rparr>] @ [w])"

text \<open>What a token update may do to the window table: every stored row keeps all
  fields but \<open>token_count\<close> and \<open>last_updated\<close>, and a row that is added has
  request count 0.\<close>

definition token_update_only :: "window list \<Rightarrow> window list \<Rightarrow> bool" where
  "token_update_only ws ws' \<longleftrightarrow>
     length ws \<le> length ws' \<and>
     (\<forall>i<length ws. ws' ! i = (ws ! i)\<lparr>token_count := token_count (ws' ! i),
                                          last_updated := last_updated (ws' ! i)\<rparr>) \<and>
     (\<forall>i<length ws'. length ws \<le> i \<longrightarrow> request_count (ws' ! i) = 0)"

text \<open>Every row with the given queue id has failed with the error text of an expiry.\<close>

definition expired_rows :: "string \<Rightarrow> db \<Rightarrow> bool" where
  "expired_rows k d \<longleftrightarrow>
     (\<forall>r\<in>set (queue d). queue_id r = k \<longrightarrow>
        status r = failed \<and> qe_error r = Some ''Request expired in queue'')"

text \<open>The number of entries of a key's (tenant, provider, model) that a drain has
  processed.\<close>

definition count_processed :: "drain_step list \<Rightarrow> string \<Rightarrow> string \<Rightarrow> string option \<Rightarrow> int" where
  "count_processed steps agent prov mdl =
     int (length (filter (\<lambda>s. case s of
                                  Processed q \<Rightarrow> qe_agent_wallet q = agent \<and> qe_provider q = prov \<and>
                                                 qe_model q = mdl
                                | Requeued q \<Rightarrow> False) steps))"

text \<open>The usage of a key in a horizon at the instant \<open>now\<close>: the counts of its active
  window, and 0 when it has none or when that window has run out (the next check
  rotates it).\<close>

definition usage :: "db \<Rightarrow> time \<Rightarrow> string \<Rightarrow> string \<Rightarrow> string option \<Rightarrow> window_type \<Rightarrow> int \<times> int" where
  "usage d now agent prov mdl wt =
     (case select_active d agent prov mdl wt of
        None \<Rightarrow> (0, 0)
      | Some (i, w) \<Rightarrow> if now > window_end w then (0, 0) else (request_count w, token_count w))"

text \<open>The decision of \<open>checkWindowLimitDetailed\<close> on a window of the given horizon that
  carries the limits which \<open>createWindow\<close> takes from a limits object, at given
  counts.\<close>

definition decision_under :: "limits \<Rightarrow> window_type \<Rightarrow> int \<times> int \<Rightarrow> limit_check" where
  "decision_under ls wt u =
     checkWindowLimitDetailed
       \<lparr>w_agent_wallet = [], w_provider = [], w_model = None, w_window_type = wt,
        window_start = 0, window_end = 0, request_count = fst u, token_count = snd u,
        limit_requests = getLimitForWindowType ls wt requests,
        limit_tokens = getLimitForWindowType ls wt tokens, is_active = True, last_updated = 0\<rparr>"

text \<open>Every active window of a (tenant, provider, model) carries the limits that
  \<open>createWindow\<close> takes from the given limits object.\<close>

definition carries_limits :: "limits \<Rightarrow> string \<Rightarrow> string \<Rightarrow> string option \<Rightarrow> db \<Rightarrow> bool" where
  "carries_limits ls agent prov mdl d \<longleftrightarrow>
     (\<forall>w\<in>set (windows d).
        w_agent_wallet w = agent \<and> w_provider w = prov \<and> w_model w = mdl \<and> is_active w \<longrightarrow>
        limit_requests w = getLimitForWindowType ls (w_window_type w) requests \<and>
        limit_tokens w = getLimitForWindowType ls (w_window_type w) tokens)"

text \<open>The quota row that \<open>getQuota\<close> returns for a tenant.\<close>

definition quota_of :: "db \<Rightarrow> string \<Rightarrow> quota_row" where
  "quota_of d agent = (case quotas d agent of None \<Rightarrow> default_quota | Some q \<Rightarrow> q)"

section \<open>Example stores\<close>

text \<open>A free tenant \<open>0xA\<close> whose anthropic minute window (0 to 60000 ms) has used all
  of its 50 requests.\<close>

definition used_window :: window where
  "used_window =
     \<lparr>w_agent_wallet = ''0xA'', w_provider = ''anthropic'', w_model = None,
      w_window_type = per_minute, window_start = 0, window_end = 60000,
      request_count = 50, token_count = 0,
      limit_requests = Some 50, limit_tokens = Some 40000,
      is_active = True, last_updated = 0\<rparr>"

definition empty_db :: db where
  "empty_db = \<lparr>configs = [], windows = [], events = [], queue = [], patterns = [],
                quotas = Map.empty\<rparr>"

definition used_db :: db where
  "used_db = empty_db\<lparr>windows := [used_window]\<rparr>"

definition plain_request :: request_data where
  "plain_request = \<lparr>agentWallet = None, rd_priority = None, rate_limit_decision = None\<rparr>"

text \<open>A pro tenant \<open>0xP\<close> (licence paid until far in the future, queueing granted, at
  most 100 pending entries), its anthropic minute window with all 1000 requests
  used, and a queue of 100 pending entries of that tenant.\<close>

definition pro_quota :: quota_row where
  "pro_quota =
     \<lparr>q_tier = ''pro'', q_requests_per_minute = - 1, q_can_queue = True,
      q_max_queue_size = 100, q_auto_learning = True, q_custom_limits = True,
      q_priority_queuing = True, q_paid_until = Some 4000000000000\<rparr>"

definition pro_window :: window where
  "pro_window =
     \<lparr>w_agent_wallet = ''0xP'', w_provider = ''anthropic'', w_model = None,
      w_window_type = per_minute, window_start = 0, window_end = 60000,
      request_count = 1000, token_count = 0,
      limit_requests = Some 1000, limit_tokens = Some 80000,
      is_active = True, last_updated = 0\<rparr>"

definition queued_entry :: "string \<Rightarrow> string \<Rightarrow> int \<Rightarrow> time \<Rightarrow> queue_entry" where
  "queued_entry qid agent pri t =
     \<lparr>queue_id = qid, qe_agent_wallet = agent, qe_provider = ''anthropic'', qe_model = None,
      queued_at = t, priority = pri, retry_count = 0, max_retries = 3,
      qe_request_data = plain_request, status = pending, processed_at = None,
      qe_error = None\<rparr>"

definition full_queue :: "queue_entry list" where
  "full_queue =
     map (\<lambda>i. queued_entry (replicate (Suc i) CHR ''q'') ''0xP'' 5 (int i * 1000)) [0..<100]"

definition pro_db :: db where
  "pro_db = empty_db\<lparr>windows := [pro_window], quotas := [''0xP'' \<mapsto> pro_quota]\<rparr>"

definition pro_db_full :: db where
  "pro_db_full = pro_db\<lparr>queue := full_queue\<rparr>"

text \<open>A queue whose highest-priority entry was queued at time 0 and whose second
  entry was queued at 1900000 ms; at 2000000 ms the first is older than 30 minutes
  and the second is not.\<close>

definition aged_db :: db where
  "aged_db = pro_db\<lparr>queue := [queued_entry ''q-old'' ''0xP'' 9 0,
                                 queued_entry ''q-new'' ''0xP'' 5 1900000]\<rparr>"

text \<open>A burst pattern as \<open>detectBurstPattern\<close> returns it, with confidence 0.9.\<close>

definition burst_pattern :: pattern where
  "burst_pattern =
     \<lparr>pattern_type = ''burst'', description = ''Bursty traffic pattern detected'',
      typical_windows = None, pt_avg_requests_per_minute = None,
      pt_peak_requests_per_minute = None, confidence = 9 / 10,
      suggested_limit = None, suggested_queue_size = Some 25\<rparr>"

text \<open>The row that \<open>storePattern\<close> writes for it.\<close>

definition burst_row :: "string \<Rightarrow> time \<Rightarrow> pattern_row" where
  "burst_row pid t =
     \<lparr>pattern_id = pid, p_agent_wallet = Some ''0xP'', p_pattern_type = ''burst'',
      avg_requests_per_minute = None, peak_requests_per_minute = None,
      typical_window = Some ''Bursty traffic pattern detected'', p_confidence = 9 / 10,
      p_suggested_limit = None, p_suggested_queue_size = Some 25,
      detected_at = t, last_observed = None, observation_count = 1\<rparr>"

text \<open>Two tenants with one pending entry each: the pro tenant \<open>0xP\<close> (priority 5) and
  another tenant \<open>0xB\<close> (priority 9); no window is stored yet.\<close>

definition two_tenant_db :: db where
  "two_tenant_db =
     empty_db\<lparr>queue := [queued_entry ''q-P'' ''0xP'' 5 0, queued_entry ''q-B'' ''0xB'' 9 1000],
              quotas := [''0xP'' \<mapsto> pro_quota]\<rparr>"

text \<open>The pro tenant with 10 of 1000 requests used in the current minute window and
  one pending entry of its own.\<close>

definition draining_db :: db where
  "draining_db =
     pro_db\<lparr>windows := [pro_window\<lparr>request_count := 10\<rparr>],
            queue := [queued_entry ''q-P'' ''0xP'' 5 0]\<rparr>"

text \<open>A request that carries the decision of an admitting pre-call, and a response
  that reports 120 tokens.\<close>

definition admitted_request :: request_data where
  "admitted_request =
     plain_request\<lparr>rate_limit_decision :=
       Some \<lparr>d_request_id = ''r1'', d_agent_wallet = ''0xP'', d_provider = ''anthropic'',
             d_model = None, d_timestamp = 500, d_allowed = True\<rparr>\<rparr>"

definition usage_response :: response where
  "usage_response = \<lparr>cost_metrics_tokens_total = None, usage_total_tokens = Some 120\<rparr>"

text \<open>The decision and the store that the first pre-call of tenant \<open>0xA\<close> on an empty
  store produces.\<close>

definition first_decision :: decision where
  "first_decision =
     \<lparr>d_request_id = ''r1'', d_agent_wallet = ''0xA'', d_provider = ''anthropic'',
      d_model = None, d_timestamp = 1000, d_allowed = True\<rparr>"

definition after_first :: db where
  "after_first =
     snd (beforeProvider empty_db 1000 ''r1'' ''anthropic'' None ''0xA'' ''s1'' plain_request ''u1'')"

text \<open>The tenant \<open>0xA\<close> has used all 50 requests of its minute window (0 to 60000 ms) for
  the provider \<open>cohere\<close>, which is not built in and has no stored configuration.\<close>

definition cohere_db :: db where
  "cohere_db = empty_db\<lparr>windows := [used_window\<lparr>w_provider := ''cohere''\<rparr>]\<rparr>"

section \<open>The would-exceed decision\<close>

text \<open>In the source a limit is "set" when it is a non-null, non-zero number: the check
  reads it through \<open>limit && ...\<close>, and every insert of the repository stores
  \<open>limit || null\<close>, so a zero never reaches a row (\<open>getLimitForWindowType\<close> documents
  its result as "limit value or null if not set").\<close>

definition limit_set :: "int option \<Rightarrow> bool" where
  "limit_set l = truthy l"

lemma getLimitForWindowType_nonzero: "getLimitForWindowType ls wt lt \<noteq> Some 0"
  by (simp add: getLimitForWindowType_def or_null_def truthy_def split: option.splits)

lemma limit_set_created:
  "limit_set (getLimitForWindowType ls wt lt) \<longleftrightarrow> getLimitForWindowType ls wt lt \<noteq> None"
  using getLimitForWindowType_nonzero [of ls wt lt]
  by (cases "getLimitForWindowType ls wt lt") (auto simp: limit_set_def truthy_def)

text \<open>
  Claim C1. For every window record, the would-exceed decision returns
  \<open>exceeded = true\<close> if and only if the request limit is set and the request count has
  reached it, or the token limit is set and the token count has reached it; \<open>current\<close>
  is the request count, \<open>limit\<close> is the request limit (0 when unset), and \<open>percentUsed\<close>
  is \<open>current / limit * 100\<close> when \<open>limit > 0\<close> and 0 otherwise.
\<close>

theorem checkWindowLimitDetailed_decision:
  "exceeded (checkWindowLimitDetailed w) =
     ((limit_set (limit_requests w) \<and> request_count w \<ge> the (limit_requests w)) \<or>
      (limit_set (limit_tokens w) \<and> token_count w \<ge> the (limit_tokens w)))
   \<and> current (checkWindowLimitDetailed w) = request_count w
   \<and> limit (checkWindowLimitDetailed w) =
       (if limit_set (limit_requests w) then the (limit_requests w) else 0)
   \<and> percentUsed (checkWindowLimitDetailed w) =
       (if limit (checkWindowLimitDetailed w) > 0
        then of_int (current (checkWindowLimitDetailed w))
             / of_int (limit (checkWindowLimitDetailed w)) * 100
        else 0)"
  by (cases "limit_requests w"; cases "limit_tokens w")
     (auto simp: checkWindowLimitDetailed_def limit_set_def truthy_def Let_def)

section \<open>Properties of the store and tracker operations\<close>

lemma getQuota_frame [simp]:
  "windows (snd (getQuota d a)) = windows d"
  "queue (snd (getQuota d a)) = queue d"
  "events (snd (getQuota d a)) = events d"
  "patterns (snd (getQuota d a)) = patterns d"
  "configs (snd (getQuota d a)) = configs d"
  by (simp_all add: getQuota_def split: option.splits)

lemma checkQuotaAvailable_frame [simp]:
  "windows (snd (checkQuotaAvailable d now a)) = windows d"
  "queue (snd (checkQuotaAvailable d now a)) = queue d"
  "events (snd (checkQuotaAvailable d now a)) = events d"
  "patterns (snd (checkQuotaAvailable d now a)) = patterns d"
  "configs (snd (checkQuotaAvailable d now a)) = configs d"
  by (simp_all add: checkQuotaAvailable_def Let_def split_beta)

lemma getLimits_frame [simp]:
  "windows (snd (getLimits d now a p m)) = windows d"
  "queue (snd (getLimits d now a p m)) = queue d"
  "events (snd (getLimits d now a p m)) = events d"
  "patterns (snd (getLimits d now a p m)) = patterns d"
  "configs (snd (getLimits d now a p m)) = configs d"
  by (simp_all add: getLimits_def Let_def split_beta split: option.splits)

lemma createWindow_frame [simp]:
  "queue (snd (createWindow d now a p m wt)) = queue d"
  "events (snd (createWindow d now a p m wt)) = events d"
  "patterns (snd (createWindow d now a p m wt)) = patterns d"
  "configs (snd (createWindow d now a p m wt)) = configs d"
  by (simp_all add: createWindow_def Let_def split_beta)

lemma createWindow_cases:
  "(fst (createWindow d now a p m wt) = Inl StoreError \<and>
      windows (snd (createWindow d now a p m wt)) = windows d \<and>
      (\<exists>x\<in>set (windows d). same_key a p m wt x \<and> window_start x = now))
   \<or> (\<exists>f. fst (createWindow d now a p m wt) = Inr (length (windows d), f) \<and>
          windows (snd (createWindow d now a p m wt)) = windows d @ [f] \<and>
          fresh_row now a p m wt f)"
  by (auto simp: createWindow_def Let_def split_beta list_ex_iff window_conflict_def
        same_key_def fresh_row_def calculateWindowEnd_def)

lemma update_window_frame [simp]:
  "queue (update_window i f d) = queue d"
  "events (update_window i f d) = events d"
  "patterns (update_window i f d) = patterns d"
  "configs (update_window i f d) = configs d"
  "quotas (update_window i f d) = quotas d"
  by (simp_all add: update_window_def)

lemma windows_update_window:
  "windows (update_window i f d) = (if i < length (windows d) then (windows d)[i := f (windows d ! i)] else windows d)"
  by (simp add: update_window_def)

lemma latest_mem: "latest xs = Some x \<Longrightarrow> x \<in> set xs"
  by (induction xs arbitrary: x) (auto split: option.splits if_splits)

lemma latest_None: "latest xs = None \<longleftrightarrow> xs = []"
  by (cases xs) (auto split: option.splits)

lemma latest_max: "latest xs = Some x \<Longrightarrow> y \<in> set xs \<Longrightarrow> window_start (snd y) \<le> window_start (snd x)"
proof (induction xs arbitrary: x)
  case Nil
  then show ?case by simp
next
  case (Cons a xs)
  show ?case
  proof (cases "latest xs")
    case None
    then have "xs = []" by (simp add: latest_None)
    with Cons.prems show ?thesis by simp
  next
    case (Some z)
    have ih: "y \<in> set xs \<Longrightarrow> window_start (snd y) \<le> window_start (snd z)"
      using Cons.IH [OF Some] .
    from Cons.prems(1) Some have
      x: "x = (if window_start (snd z) > window_start (snd a) then z else a)"
      by (simp split: if_splits)
    from Cons.prems(2) have "y = a \<or> y \<in> set xs" by simp
    then show ?thesis
    proof
      assume "y = a" with x show ?thesis by simp
    next
      assume "y \<in> set xs"
      from ih [OF this] x show ?thesis by (simp split: if_splits)
    qed
  qed
qed

lemma latest_append_greater:
  "\<forall>x\<in>set xs. window_start (snd x) < window_start (snd y) \<Longrightarrow> latest (xs @ [y]) = Some y"
  by (induction xs) auto

lemma select_active_Some:
  assumes "select_active d a p m wt = Some (i, w)"
  shows "i < length (windows d)" "windows d ! i = w" "window_matches a p m wt w"
    "\<forall>x\<in>set (windows d). window_matches a p m wt x \<longrightarrow> window_start x \<le> window_start w"
proof -
  let ?xs = "filter (\<lambda>(i, w). window_matches a p m wt w) (enumerate 0 (windows d))"
  from assms have l: "latest ?xs = Some (i, w)" by (simp add: select_active_def)
  from latest_mem [OF l] show "i < length (windows d)" "windows d ! i = w" "window_matches a p m wt w"
    by (auto simp: in_set_enumerate_eq)
  show "\<forall>x\<in>set (windows d). window_matches a p m wt x \<longrightarrow> window_start x \<le> window_start w"
  proof (intro ballI impI)
    fix x assume "x \<in> set (windows d)" "window_matches a p m wt x"
    then obtain j where "j < length (windows d)" "windows d ! j = x" by (auto simp: in_set_conv_nth)
    with \<open>window_matches a p m wt x\<close> have "(j, x) \<in> set ?xs" by (auto simp: in_set_enumerate_eq)
    from latest_max [OF l this] show "window_start x \<le> window_start w" by simp
  qed
qed

lemma select_active_None:
  assumes "select_active d a p m wt = None"
  shows "\<forall>x\<in>set (windows d). \<not> window_matches a p m wt x"
proof (intro ballI notI)
  fix x assume "x \<in> set (windows d)" "window_matches a p m wt x"
  then obtain j where "j < length (windows d)" "windows d ! j = x" by (auto simp: in_set_conv_nth)
  with \<open>window_matches a p m wt x\<close>
  have "(j, x) \<in> set (filter (\<lambda>(i, w). window_matches a p m wt w) (enumerate 0 (windows d)))"
    by (auto simp: in_set_enumerate_eq)
  with assms show False by (auto simp: select_active_def latest_None filter_empty_conv)
qed

lemma select_active_append_latest:
  assumes "windows d = ws @ [f]" "window_matches a p m wt f"
    "\<forall>x\<in>set ws. window_matches a p m wt x \<longrightarrow> window_start x < window_start f"
  shows "select_active d a p m wt = Some (length ws, f)"
proof -
  have "filter (\<lambda>(i, w). window_matches a p m wt w) (enumerate 0 (windows d))
        = filter (\<lambda>(i, w). window_matches a p m wt w) (enumerate 0 ws) @ [(length ws, f)]"
    using assms(1,2) by (simp add: enumerate_append_eq)
  moreover have "\<forall>x\<in>set (filter (\<lambda>(i, w). window_matches a p m wt w) (enumerate 0 ws)).
      window_start (snd x) < window_start (snd (length ws, f))"
    using assms(3) by (auto simp: in_set_enumerate_eq)
  ultimately show ?thesis
    by (simp add: select_active_def latest_append_greater del: snd_conv)
qed

lemma wouldExceedLimit_ensure:
  "wouldExceedLimit d now a p m wt t =
     (case ensure_current d now a p m wt of
        (Inl e, d') \<Rightarrow> (conservative, d')
      | (Inr win, d') \<Rightarrow> (checkWindowLimitDetailed (snd win), d'))"
  by (simp add: wouldExceedLimit_def ensure_current_def split: prod.splits sum.splits)

lemma incrementWindow_ensure:
  "incrementWindow d now a p m wt toks =
     (case ensure_current d now a p m wt of
        (Inl e, d') \<Rightarrow> (Inl e, d')
      | (Inr win, d') \<Rightarrow> (Inr (), updateWindowCounts d' now (fst win) toks))"
  by (simp add: incrementWindow_def ensure_current_def split: prod.splits sum.splits)

lemma windowDurations_pos: "0 < windowDurations wt"
  by (cases wt) (simp_all add: windowDurations_def)

lemma matches_same_key: "window_matches a p m wt w \<longleftrightarrow> same_key a p m wt w \<and> is_active w"
  by (auto simp: window_matches_def same_key_def)

lemma ok_all: "windows_ok d now \<Longrightarrow> x \<in> set (windows d) \<Longrightarrow>
   window_start x \<le> window_end x \<and> (window_start x = now \<longrightarrow> is_active x)"
  by (auto simp: windows_ok_def list_all_iff)

lemma getCurrentWindow_frame [simp]:
  "queue (snd (getCurrentWindow d now a p m wt)) = queue d"
  "events (snd (getCurrentWindow d now a p m wt)) = events d"
  "patterns (snd (getCurrentWindow d now a p m wt)) = patterns d"
  "configs (snd (getCurrentWindow d now a p m wt)) = configs d"
  by (simp_all add: getCurrentWindow_def split: option.splits)

lemma rotateWindow_frame [simp]:
  "queue (snd (rotateWindow d now old)) = queue d"
  "events (snd (rotateWindow d now old)) = events d"
  "patterns (snd (rotateWindow d now old)) = patterns d"
  "configs (snd (rotateWindow d now old)) = configs d"
  by (simp_all add: rotateWindow_def Let_def)

lemma ensure_current_frame [simp]:
  "queue (snd (ensure_current d now a p m wt)) = queue d"
  "events (snd (ensure_current d now a p m wt)) = events d"
  "patterns (snd (ensure_current d now a p m wt)) = patterns d"
  "configs (snd (ensure_current d now a p m wt)) = configs d"
proof -
  have g: "\<And>x y. getCurrentWindow d now a p m wt = (x, y) \<Longrightarrow>
     queue y = queue d \<and> events y = events d \<and> patterns y = patterns d \<and> configs y = configs d"
    by (metis getCurrentWindow_frame snd_conv)
  have r: "\<And>d1 w x y. rotateWindow d1 now w = (x, y) \<Longrightarrow>
     queue y = queue d1 \<and> events y = events d1 \<and> patterns y = patterns d1 \<and> configs y = configs d1"
    by (metis rotateWindow_frame snd_conv)
  show "queue (snd (ensure_current d now a p m wt)) = queue d"
    "events (snd (ensure_current d now a p m wt)) = events d"
    "patterns (snd (ensure_current d now a p m wt)) = patterns d"
    "configs (snd (ensure_current d now a p m wt)) = configs d"
    by (auto simp: ensure_current_def split: prod.splits sum.splits dest!: g r)
qed

text \<open>Fetching the current window in a well-formed table never fails.\<close>

lemma getCurrentWindow_ok:
  assumes ok: "windows_ok d now"
  shows "\<exists>i w. fst (getCurrentWindow d now a p m wt) = Inr (i, w) \<and>
           ((select_active d a p m wt = Some (i, w) \<and>
               windows (snd (getCurrentWindow d now a p m wt)) = windows d)
            \<or> created d now a p m wt i w (windows (snd (getCurrentWindow d now a p m wt))))"
proof (cases "select_active d a p m wt")
  case (Some iw)
  then show ?thesis by (cases iw) (simp add: getCurrentWindow_def)
next
  case None
  have "\<not> (\<exists>x\<in>set (windows d). same_key a p m wt x \<and> window_start x = now)"
  proof
    assume "\<exists>x\<in>set (windows d). same_key a p m wt x \<and> window_start x = now"
    then obtain x where x: "x \<in> set (windows d)" "same_key a p m wt x" "window_start x = now"
      by blast
    with ok_all [OF ok x(1)] have "window_matches a p m wt x" by (simp add: matches_same_key)
    with select_active_None [OF None] x(1) show False by blast
  qed
  with createWindow_cases [of d now a p m wt] None show ?thesis
    by (auto simp: getCurrentWindow_def created_def)
qed

text \<open>Rotating an expired current window in a well-formed table never fails, and the
  new row becomes the current window of the key.\<close>

lemma rotateWindow_ok:
  assumes ok: "windows_ok d now"
    and sel: "select_active d a p m wt = Some (j, old)"
    and stale: "now > window_end old"
  shows "\<exists>w. fst (rotateWindow d now (j, old)) = Inr (length (windows d), w) \<and>
           fresh_row now a p m wt w \<and>
           windows (snd (rotateWindow d now (j, old)))
             = (windows d)[j := old\<lparr>is_active := False\<rparr>] @ [w] \<and>
           select_active (snd (rotateWindow d now (j, old))) a p m wt
             = Some (length (windows d), w)"
proof -
  note s = select_active_Some [OF sel]
  let ?d1 = "update_window j (\<lambda>w. w\<lparr>is_active := False\<rparr>) d"
  let ?ws1 = "(windows d)[j := old\<lparr>is_active := False\<rparr>]"
  have key: "w_agent_wallet old = a" "w_provider old = p" "w_model old = m" "w_window_type old = wt"
    using s(3) by (simp_all add: window_matches_def)
  have w1: "windows ?d1 = ?ws1" using s(1,2) by (simp add: windows_update_window)
  have old_in: "old \<in> set (windows d)" using s(1,2) by (auto simp: in_set_conv_nth)
  have old_lt: "window_start old < now" using ok_all [OF ok old_in] stale by simp
  have split: "x = old\<lparr>is_active := False\<rparr> \<or> x \<in> set (windows d)" if "x \<in> set ?ws1" for x
    using that set_update_subset_insert [of "windows d" j "old\<lparr>is_active := False\<rparr>"] by auto
  have A: "window_start x < now" if "x \<in> set ?ws1" "window_matches a p m wt x" for x
  proof -
    from split [OF that(1)] show ?thesis
    proof
      assume "x = old\<lparr>is_active := False\<rparr>"
      with that(2) show ?thesis by (simp add: window_matches_def)
    next
      assume "x \<in> set (windows d)"
      with s(4) that(2) have "window_start x \<le> window_start old" by blast
      with old_lt show ?thesis by simp
    qed
  qed
  have B: "window_start x \<noteq> now" if "x \<in> set ?ws1" "same_key a p m wt x" for x
  proof -
    from split [OF that(1)] show ?thesis
    proof
      assume "x = old\<lparr>is_active := False\<rparr>"
      with old_lt show ?thesis by simp
    next
      assume x: "x \<in> set (windows d)"
      show ?thesis
      proof
        assume "window_start x = now"
        with ok_all [OF ok x] that(2) have "window_matches a p m wt x"
          by (simp add: matches_same_key)
        with s(4) x have "window_start x \<le> window_start old" by blast
        with old_lt \<open>window_start x = now\<close> show False by simp
      qed
    qed
  qed
  have r: "rotateWindow d now (j, old) = createWindow ?d1 now a p m wt"
    by (simp add: rotateWindow_def key)
  from createWindow_cases [of ?d1 now a p m wt] B
  obtain w where w: "fst (createWindow ?d1 now a p m wt) = Inr (length (windows ?d1), w)"
      "windows (snd (createWindow ?d1 now a p m wt)) = windows ?d1 @ [w]"
      "fresh_row now a p m wt w"
    unfolding w1 by blast
  have m: "window_matches a p m wt w" using w(3) by (simp add: matches_same_key fresh_row_def)
  have "select_active (snd (createWindow ?d1 now a p m wt)) a p m wt = Some (length ?ws1, w)"
  proof (rule select_active_append_latest)
    show "windows (snd (createWindow ?d1 now a p m wt)) = ?ws1 @ [w]" using w(2) w1 by simp
    show "window_matches a p m wt w" by (rule m)
    show "\<forall>x\<in>set ?ws1. window_matches a p m wt x \<longrightarrow> window_start x < window_start w"
      using A w(3) by (auto simp: fresh_row_def)
  qed
  with w w1 r show ?thesis by simp
qed

text \<open>In a well-formed table the current window of a key is always obtained, in one
  of the three ways.\<close>

lemma ensure_current_ok:
  assumes ok: "windows_ok d now"
  shows "\<exists>i w. fst (ensure_current d now a p m wt) = Inr (i, w) \<and>
           (kept d now a p m wt i w (windows (snd (ensure_current d now a p m wt))) \<or>
            created d now a p m wt i w (windows (snd (ensure_current d now a p m wt))) \<or>
            rotated d now a p m wt i w (windows (snd (ensure_current d now a p m wt))))"
proof -
  obtain r d1 where g: "getCurrentWindow d now a p m wt = (r, d1)"
    by (cases "getCurrentWindow d now a p m wt")
  from getCurrentWindow_ok [OF ok, of a p m wt] g obtain i w where
    r: "r = Inr (i, w)" and
    c: "(select_active d a p m wt = Some (i, w) \<and> windows d1 = windows d)
        \<or> created d now a p m wt i w (windows d1)"
    by auto
  from c show ?thesis
  proof
    assume c1: "select_active d a p m wt = Some (i, w) \<and> windows d1 = windows d"
    then have sel: "select_active d a p m wt = Some (i, w)" and same: "windows d1 = windows d"
      by simp_all
    have d1: "d1 = d" using g sel by (simp add: getCurrentWindow_def)
    show ?thesis
    proof (cases "now > window_end w")
      case False
      with g r sel d1 show ?thesis by (simp add: ensure_current_def kept_def)
    next
      case True
      from rotateWindow_ok [OF ok sel True] obtain f where
        f: "fst (rotateWindow d now (i, w)) = Inr (length (windows d), f)"
           "fresh_row now a p m wt f"
           "windows (snd (rotateWindow d now (i, w))) = (windows d)[i := w\<lparr>is_active := False\<rparr>] @ [f]"
           "select_active (snd (rotateWindow d now (i, w))) a p m wt = Some (length (windows d), f)"
        by blast
      obtain d2 where rot: "rotateWindow d now (i, w) = (Inr (length (windows d), f), d2)"
        using f(1) by (cases "rotateWindow d now (i, w)") simp
      have g2: "getCurrentWindow d2 now a p m wt = (Inr (length (windows d), f), d2)"
        using f(4) rot by (simp add: getCurrentWindow_def)
      have "ensure_current d now a p m wt = (Inr (length (windows d), f), d2)"
        using g r d1 True rot g2 by (simp add: ensure_current_def)
      moreover have "rotated d now a p m wt (length (windows d)) f (windows d2)"
        using sel True f(2,3) rot by (auto simp: rotated_def)
      ultimately show ?thesis by auto
    qed
  next
    assume c2: "created d now a p m wt i w (windows d1)"
    then have "window_end w = now + windowDurations wt" by (simp add: created_def fresh_row_def)
    with windowDurations_pos [of wt] have "\<not> now > window_end w" by simp
    with g r c2 show ?thesis by (simp add: ensure_current_def)
  qed
qed

lemma sum_list_map_update:
  fixes f :: "'a \<Rightarrow> int"
  shows "i < length xs \<Longrightarrow> sum_list (map f (xs[i := y])) = sum_list (map f xs) - f (xs ! i) + f y"
  by (induction xs arbitrary: i) (auto split: nat.splits)

lemma shape_current:
  assumes "kept d now a p m wt i w ws \<or> created d now a p m wt i w ws \<or> rotated d now a p m wt i w ws"
  shows "i < length ws \<and> ws ! i = w \<and> same_key a p m wt w \<and> is_active w \<and> now \<le> window_end w"
  using assms windowDurations_pos [of wt]
  by (auto simp: kept_def created_def rotated_def fresh_row_def matches_same_key nth_append
        dest: select_active_Some)

lemma shape_length:
  assumes "kept d now a p m wt i w ws \<or> created d now a p m wt i w ws \<or> rotated d now a p m wt i w ws"
  shows "length (windows d) \<le> length ws"
  using assms by (auto simp: kept_def created_def rotated_def)

lemma shape_sum:
  fixes g :: "window \<Rightarrow> int"
  assumes "kept d now a p m wt i w ws \<or> created d now a p m wt i w ws \<or> rotated d now a p m wt i w ws"
    and zero: "\<And>x. request_count x = 0 \<Longrightarrow> token_count x = 0 \<Longrightarrow> g x = 0"
    and act: "\<And>x. g (x\<lparr>is_active := False\<rparr>) = g x"
  shows "sum_list (map g ws) = sum_list (map g (windows d))"
  using assms(1)
proof (elim disjE)
  assume "kept d now a p m wt i w ws" then show ?thesis by (simp add: kept_def)
next
  assume "created d now a p m wt i w ws"
  then show ?thesis by (simp add: created_def fresh_row_def zero)
next
  assume "rotated d now a p m wt i w ws"
  then obtain j old where r: "select_active d a p m wt = Some (j, old)"
      "fresh_row now a p m wt w" "ws = (windows d)[j := old\<lparr>is_active := False\<rparr>] @ [w]"
    by (auto simp: rotated_def)
  note s = select_active_Some [OF r(1)]
  have "sum_list (map g ((windows d)[j := old\<lparr>is_active := False\<rparr>])) = sum_list (map g (windows d))"
    using s(1,2) by (simp add: sum_list_map_update act)
  with r(2,3) show ?thesis by (simp add: fresh_row_def zero)
qed

lemma shape_ok:
  assumes ok: "windows_ok d now"
    and sh: "kept d now a p m wt i w (windows d') \<or> created d now a p m wt i w (windows d')
             \<or> rotated d now a p m wt i w (windows d')"
  shows "windows_ok d' now"
  using sh
proof (elim disjE)
  assume "kept d now a p m wt i w (windows d')"
  with ok show ?thesis by (simp add: kept_def windows_ok_def)
next
  assume "created d now a p m wt i w (windows d')"
  with ok windowDurations_pos [of wt] show ?thesis
    by (simp add: created_def windows_ok_def fresh_row_def)
next
  assume "rotated d now a p m wt i w (windows d')"
  then obtain j old where r: "select_active d a p m wt = Some (j, old)" "now > window_end old"
      "fresh_row now a p m wt w" "windows d' = (windows d)[j := old\<lparr>is_active := False\<rparr>] @ [w]"
    by (auto simp: rotated_def)
  note s = select_active_Some [OF r(1)]
  have old_in: "old \<in> set (windows d)" using s(1,2) by (auto simp: in_set_conv_nth)
  have o: "window_start old \<le> window_end old" "window_start old \<noteq> now"
    using ok_all [OF ok old_in] r(2) by auto
  have "list_all (\<lambda>w. window_start w \<le> window_end w \<and> (window_start w \<noteq> now \<or> is_active w))
          ((windows d)[j := old\<lparr>is_active := False\<rparr>])"
    unfolding list_all_iff
  proof
    fix x assume "x \<in> set ((windows d)[j := old\<lparr>is_active := False\<rparr>])"
    then have "x = old\<lparr>is_active := False\<rparr> \<or> x \<in> set (windows d)"
      using set_update_subset_insert [of "windows d" j "old\<lparr>is_active := False\<rparr>"] by auto
    then show "window_start x \<le> window_end x \<and> (window_start x \<noteq> now \<or> is_active x)"
      using o ok_all [OF ok] by auto
  qed
  with r(3,4) windowDurations_pos [of wt] show ?thesis
    by (simp add: windows_ok_def fresh_row_def)
qed

text \<open>The would-exceed check changes no count: it may only deactivate a row and append
  rows whose counts are 0.\<close>

lemma wouldExceedLimit_frame [simp]:
  "queue (snd (wouldExceedLimit d now a p m wt t)) = queue d"
  "events (snd (wouldExceedLimit d now a p m wt t)) = events d"
  "patterns (snd (wouldExceedLimit d now a p m wt t)) = patterns d"
  "configs (snd (wouldExceedLimit d now a p m wt t)) = configs d"
  by (simp_all add: wouldExceedLimit_ensure split: prod.splits sum.splits)
     (metis ensure_current_frame(1) snd_conv, metis ensure_current_frame(2) snd_conv,
      metis ensure_current_frame(3) snd_conv, metis ensure_current_frame(4) snd_conv)

lemma wouldExceedLimit_effect:
  assumes ok: "windows_ok d now"
  shows "windows_ok (snd (wouldExceedLimit d now a p m wt t)) now"
    "total_requests (snd (wouldExceedLimit d now a p m wt t)) a' p' m' wt' = total_requests d a' p' m' wt'"
    "total_tokens (snd (wouldExceedLimit d now a p m wt t)) a' p' m' wt' = total_tokens d a' p' m' wt'"
    "length (windows d) \<le> length (windows (snd (wouldExceedLimit d now a p m wt t)))"
proof -
  obtain r d' where e: "ensure_current d now a p m wt = (r, d')"
    by (cases "ensure_current d now a p m wt")
  from ensure_current_ok [OF ok, of a p m wt] e obtain i w where
    r: "r = Inr (i, w)" and
    sh: "kept d now a p m wt i w (windows d') \<or> created d now a p m wt i w (windows d')
         \<or> rotated d now a p m wt i w (windows d')"
    by auto
  have w: "snd (wouldExceedLimit d now a p m wt t) = d'"
    using e r by (simp add: wouldExceedLimit_ensure)
  show "windows_ok (snd (wouldExceedLimit d now a p m wt t)) now"
    unfolding w by (rule shape_ok [OF ok sh])
  show "total_requests (snd (wouldExceedLimit d now a p m wt t)) a' p' m' wt' = total_requests d a' p' m' wt'"
    unfolding w total_requests_def by (rule shape_sum [OF sh]) (simp_all add: same_key_def)
  show "total_tokens (snd (wouldExceedLimit d now a p m wt t)) a' p' m' wt' = total_tokens d a' p' m' wt'"
    unfolding w total_tokens_def by (rule shape_sum [OF sh]) (simp_all add: same_key_def)
  show "length (windows d) \<le> length (windows (snd (wouldExceedLimit d now a p m wt t)))"
    unfolding w by (rule shape_length [OF sh])
qed

lemma updateWindowCounts_frame [simp]:
  "queue (updateWindowCounts d now i toks) = queue d"
  "events (updateWindowCounts d now i toks) = events d"
  "patterns (updateWindowCounts d now i toks) = patterns d"
  "configs (updateWindowCounts d now i toks) = configs d"
  by (simp_all add: updateWindowCounts_def)

lemma incrementWindow_frame [simp]:
  "queue (snd (incrementWindow d now a p m wt toks)) = queue d"
  "events (snd (incrementWindow d now a p m wt toks)) = events d"
  "patterns (snd (incrementWindow d now a p m wt toks)) = patterns d"
  "configs (snd (incrementWindow d now a p m wt toks)) = configs d"
  by (simp_all add: incrementWindow_ensure split: prod.splits sum.splits)
     (metis ensure_current_frame(1) snd_conv, metis ensure_current_frame(2) snd_conv,
      metis ensure_current_frame(3) snd_conv, metis ensure_current_frame(4) snd_conv)

lemma same_key_unique:
  "same_key a p m wt w \<Longrightarrow> same_key a' p' m' wt' w \<longleftrightarrow> a' = a \<and> p' = p \<and> m' = m \<and> wt' = wt"
  by (auto simp: same_key_def)

lemma windows_ok_update:
  assumes ok: "windows_ok d now" and i: "i < length (windows d)"
    and w: "windows d' = (windows d)[i := w']"
    and keep: "window_start w' = window_start (windows d ! i)"
      "window_end w' = window_end (windows d ! i)" "is_active w' = is_active (windows d ! i)"
  shows "windows_ok d' now"
  unfolding windows_ok_def list_all_iff w
proof
  fix x assume "x \<in> set ((windows d)[i := w'])"
  then have "x = w' \<or> x \<in> set (windows d)"
    using set_update_subset_insert [of "windows d" i w'] by auto
  moreover have "windows d ! i \<in> set (windows d)" using i by simp
  ultimately show "window_start x \<le> window_end x \<and> (window_start x \<noteq> now \<or> is_active x)"
    using ok_all [OF ok] keep by auto
qed

text \<open>An increment in a well-formed table succeeds and adds exactly one request and the
  given tokens to the totals of its key, and nothing to any other key.\<close>

lemma incrementWindow_effect:
  assumes ok: "windows_ok d now"
  shows "fst (incrementWindow d now a p m wt toks) = Inr ()"
    "windows_ok (snd (incrementWindow d now a p m wt toks)) now"
    "total_requests (snd (incrementWindow d now a p m wt toks)) a' p' m' wt'
       = total_requests d a' p' m' wt' + (if a' = a \<and> p' = p \<and> m' = m \<and> wt' = wt then 1 else 0)"
    "total_tokens (snd (incrementWindow d now a p m wt toks)) a' p' m' wt'
       = total_tokens d a' p' m' wt' + (if a' = a \<and> p' = p \<and> m' = m \<and> wt' = wt then toks else 0)"
proof -
  obtain r d' where e: "ensure_current d now a p m wt = (r, d')"
    by (cases "ensure_current d now a p m wt")
  from ensure_current_ok [OF ok, of a p m wt] e obtain i w where
    r: "r = Inr (i, w)" and
    sh: "kept d now a p m wt i w (windows d') \<or> created d now a p m wt i w (windows d')
         \<or> rotated d now a p m wt i w (windows d')"
    by auto
  note c = shape_current [OF sh]
  let ?w' = "w\<lparr>request_count := request_count w + 1, token_count := token_count w + toks,
               last_updated := now\<rparr>"
  let ?d2 = "updateWindowCounts d' now i toks"
  have res: "incrementWindow d now a p m wt toks = (Inr (), ?d2)"
    using e r by (simp add: incrementWindow_ensure)
  have ws: "windows ?d2 = (windows d')[i := ?w']"
    using c by (simp add: updateWindowCounts_def windows_update_window)
  have ok': "windows_ok d' now" by (rule shape_ok [OF ok sh])
  show "fst (incrementWindow d now a p m wt toks) = Inr ()" using res by simp
  show "windows_ok (snd (incrementWindow d now a p m wt toks)) now"
    unfolding res snd_conv using c by (intro windows_ok_update [OF ok' _ ws]) simp_all
  have k: "same_key a' p' m' wt' ?w' = same_key a' p' m' wt' w" by (simp add: same_key_def)
  have k2: "same_key a' p' m' wt' w \<longleftrightarrow> a' = a \<and> p' = p \<and> m' = m \<and> wt' = wt"
    using c by (intro same_key_unique) simp
  have "total_requests ?d2 a' p' m' wt'
      = (\<Sum>x\<leftarrow>windows d'. if same_key a' p' m' wt' x then request_count x else 0)
        + (if a' = a \<and> p' = p \<and> m' = m \<and> wt' = wt then 1 else 0)"
    unfolding total_requests_def ws using c k2
    by (simp add: sum_list_map_update same_key_def)
  also have "(\<Sum>x\<leftarrow>windows d'. if same_key a' p' m' wt' x then request_count x else 0)
      = total_requests d a' p' m' wt'"
    unfolding total_requests_def by (rule shape_sum [OF sh]) (simp_all add: same_key_def)
  finally show "total_requests (snd (incrementWindow d now a p m wt toks)) a' p' m' wt'
       = total_requests d a' p' m' wt' + (if a' = a \<and> p' = p \<and> m' = m \<and> wt' = wt then 1 else 0)"
    unfolding res snd_conv .
  have "total_tokens ?d2 a' p' m' wt'
      = (\<Sum>x\<leftarrow>windows d'. if same_key a' p' m' wt' x then token_count x else 0)
        + (if a' = a \<and> p' = p \<and> m' = m \<and> wt' = wt then toks else 0)"
    unfolding total_tokens_def ws using c k2
    by (simp add: sum_list_map_update same_key_def)
  also have "(\<Sum>x\<leftarrow>windows d'. if same_key a' p' m' wt' x then token_count x else 0)
      = total_tokens d a' p' m' wt'"
    unfolding total_tokens_def by (rule shape_sum [OF sh]) (simp_all add: same_key_def)
  finally show "total_tokens (snd (incrementWindow d now a p m wt toks)) a' p' m' wt'
       = total_tokens d a' p' m' wt' + (if a' = a \<and> p' = p \<and> m' = m \<and> wt' = wt then toks else 0)"
    unfolding res snd_conv .
qed

lemma token_update_only_refl: "token_update_only ws ws"
  by (simp add: token_update_only_def)

lemma token_update_only_trans:
  assumes "token_update_only ws ws'" "token_update_only ws' ws''"
  shows "token_update_only ws ws''"
  unfolding token_update_only_def
proof (intro conjI allI impI)
  show "length ws \<le> length ws''" using assms by (simp add: token_update_only_def)
next
  fix i assume i: "i < length ws"
  then have i': "i < length ws'" using assms(1) by (simp add: token_update_only_def)
  from assms(1) i have 1: "ws' ! i = (ws ! i)\<lparr>token_count := token_count (ws' ! i),
      last_updated := last_updated (ws' ! i)\<rparr>"
    by (simp add: token_update_only_def)
  from assms(2) i' have 2: "ws'' ! i = (ws' ! i)\<lparr>token_count := token_count (ws'' ! i),
      last_updated := last_updated (ws'' ! i)\<rparr>"
    by (simp add: token_update_only_def)
  show "ws'' ! i = (ws ! i)\<lparr>token_count := token_count (ws'' ! i),
      last_updated := last_updated (ws'' ! i)\<rparr>"
    by (subst 2, subst 1) simp
next
  fix i assume i: "i < length ws''" "length ws \<le> i"
  show "request_count (ws'' ! i) = 0"
  proof (cases "i < length ws'")
    case True
    with assms(1) i(2) have 0: "request_count (ws' ! i) = 0" by (simp add: token_update_only_def)
    from assms(2) True have "ws'' ! i = (ws' ! i)\<lparr>token_count := token_count (ws'' ! i),
      last_updated := last_updated (ws'' ! i)\<rparr>"
      by (simp add: token_update_only_def)
    then have "request_count (ws'' ! i) = request_count (ws' ! i)"
      by (metis window.select_convs(7) window.surjective window.update_convs(8,12))
    with 0 show ?thesis by simp
  next
    case False
    with assms(2) i(1) show ?thesis by (simp add: token_update_only_def)
  qed
qed

lemma updateTokenCount_frame [simp]:
  "queue (updateTokenCount d now a p m wt toks) = queue d"
  "events (updateTokenCount d now a p m wt toks) = events d"
  "patterns (updateTokenCount d now a p m wt toks) = patterns d"
  "configs (updateTokenCount d now a p m wt toks) = configs d"
  by (simp_all add: updateTokenCount_def split: prod.splits sum.splits)
     (metis getCurrentWindow_frame(1) snd_conv, metis getCurrentWindow_frame(2) snd_conv,
      metis getCurrentWindow_frame(3) snd_conv, metis getCurrentWindow_frame(4) snd_conv)

text \<open>A token update in a well-formed table adds the tokens to exactly one row of the
  key, the active one (created when there is none); it does not look at the row's
  end.\<close>

lemma updateTokenCount_shape:
  assumes ok: "windows_ok d now"
  shows "\<exists>i w ws. i < length ws \<and> ws ! i = w \<and> same_key a p m wt w \<and>
           ((select_active d a p m wt = Some (i, w) \<and> ws = windows d) \<or>
            created d now a p m wt i w ws) \<and>
           windows (updateTokenCount d now a p m wt toks)
             = ws[i := w\<lparr>token_count := token_count w + toks, last_updated := now\<rparr>]"
proof -
  obtain r d1 where g: "getCurrentWindow d now a p m wt = (r, d1)"
    by (cases "getCurrentWindow d now a p m wt")
  from getCurrentWindow_ok [OF ok, of a p m wt] g obtain i w where
    r: "r = Inr (i, w)" and
    c: "(select_active d a p m wt = Some (i, w) \<and> windows d1 = windows d)
        \<or> created d now a p m wt i w (windows d1)"
    by auto
  have f: "i < length (windows d1) \<and> windows d1 ! i = w \<and> same_key a p m wt w"
    using c
  proof
    assume "select_active d a p m wt = Some (i, w) \<and> windows d1 = windows d"
    then show ?thesis using select_active_Some [of d a p m wt i w] by (simp add: matches_same_key)
  next
    assume "created d now a p m wt i w (windows d1)"
    then show ?thesis using shape_current [of d now a p m wt i w "windows d1"] by simp
  qed
  have "windows (updateTokenCount d now a p m wt toks)
      = (windows d1)[i := w\<lparr>token_count := token_count w + toks, last_updated := now\<rparr>]"
    using g r f by (simp add: updateTokenCount_def windows_update_window)
  with f c show ?thesis by blast
qed

lemma updateTokenCount_effect:
  assumes ok: "windows_ok d now"
  shows "windows_ok (updateTokenCount d now a p m wt toks) now"
    "total_requests (updateTokenCount d now a p m wt toks) a' p' m' wt' = total_requests d a' p' m' wt'"
    "total_tokens (updateTokenCount d now a p m wt toks) a' p' m' wt'
       = total_tokens d a' p' m' wt' + (if a' = a \<and> p' = p \<and> m' = m \<and> wt' = wt then toks else 0)"
    "token_update_only (windows d) (windows (updateTokenCount d now a p m wt toks))"
proof -
  let ?d' = "updateTokenCount d now a p m wt toks"
  from updateTokenCount_shape [OF ok, of a p m wt toks] obtain i w ws where
    i: "i < length ws" "ws ! i = w" "same_key a p m wt w" and
    c: "(select_active d a p m wt = Some (i, w) \<and> ws = windows d) \<or> created d now a p m wt i w ws" and
    ws: "windows ?d' = ws[i := w\<lparr>token_count := token_count w + toks, last_updated := now\<rparr>]"
    by blast
  let ?w' = "w\<lparr>token_count := token_count w + toks, last_updated := now\<rparr>"
  have sh: "kept d now a p m wt i w ws \<or> created d now a p m wt i w ws \<or> ws = windows d"
    using c by auto
  have sums: "sum_list (map g ws) = sum_list (map g (windows d))"
    if "\<And>x. request_count x = 0 \<Longrightarrow> token_count x = 0 \<Longrightarrow> g x = 0" for g :: "window \<Rightarrow> int"
    using c that by (auto simp: created_def fresh_row_def)
  have okws: "list_all (\<lambda>w. window_start w \<le> window_end w \<and> (window_start w \<noteq> now \<or> is_active w)) ws"
    using c ok windowDurations_pos [of wt] by (auto simp: windows_ok_def created_def fresh_row_def)
  have k2: "same_key a' p' m' wt' w \<longleftrightarrow> a' = a \<and> p' = p \<and> m' = m \<and> wt' = wt"
    using i by (intro same_key_unique) simp
  show "windows_ok ?d' now"
    unfolding windows_ok_def list_all_iff ws
  proof
    fix x assume "x \<in> set (ws[i := ?w'])"
    then have "x = ?w' \<or> x \<in> set ws" using set_update_subset_insert [of ws i ?w'] by auto
    moreover have "w \<in> set ws" using i by auto
    ultimately show "window_start x \<le> window_end x \<and> (window_start x \<noteq> now \<or> is_active x)"
      using okws by (auto simp: list_all_iff)
  qed
  show "total_requests ?d' a' p' m' wt' = total_requests d a' p' m' wt'"
    unfolding total_requests_def ws using i
    by (simp add: sum_list_map_update same_key_def sums)
  show "total_tokens ?d' a' p' m' wt'
       = total_tokens d a' p' m' wt' + (if a' = a \<and> p' = p \<and> m' = m \<and> wt' = wt then toks else 0)"
    unfolding total_tokens_def ws using i k2
    by (simp add: sum_list_map_update same_key_def sums)
  show "token_update_only (windows d) (windows ?d')"
    unfolding ws using c
  proof
    assume "select_active d a p m wt = Some (i, w) \<and> ws = windows d"
    with i show "token_update_only (windows d) (ws[i := ?w'])"
      by (auto simp: token_update_only_def nth_list_update)
  next
    assume "created d now a p m wt i w ws"
    then show "token_update_only (windows d) (ws[i := ?w'])"
      by (auto simp: token_update_only_def created_def fresh_row_def nth_list_update nth_append)
  qed
qed

lemma check_windows_frame [simp]:
  "queue (snd (check_windows d now a p m t wts)) = queue d"
  "events (snd (check_windows d now a p m t wts)) = events d"
  "patterns (snd (check_windows d now a p m t wts)) = patterns d"
  "configs (snd (check_windows d now a p m t wts)) = configs d"
  by (induction wts arbitrary: d; simp add: split_beta)+

lemma check_windows_effect:
  assumes "windows_ok d now"
  shows "windows_ok (snd (check_windows d now a p m t wts)) now \<and>
     total_requests (snd (check_windows d now a p m t wts)) a' p' m' wt' = total_requests d a' p' m' wt' \<and>
     total_tokens (snd (check_windows d now a p m t wts)) a' p' m' wt' = total_tokens d a' p' m' wt'"
  using assms
proof (induction wts arbitrary: d)
  case Nil
  then show ?case by simp
next
  case (Cons wt wts)
  note e = wouldExceedLimit_effect [OF Cons.prems, of a p m wt t]
  show ?case
  proof (cases "exceeded (fst (wouldExceedLimit d now a p m wt t))")
    case True
    with e show ?thesis by (simp add: split_beta)
  next
    case False
    with Cons.IH [OF e(1)] e show ?thesis by (simp add: split_beta)
  qed
qed

lemma increment_windows_frame_all:
  "queue (snd (increment_windows d now a p m wts)) = queue d \<and>
   events (snd (increment_windows d now a p m wts)) = events d \<and>
   patterns (snd (increment_windows d now a p m wts)) = patterns d \<and>
   configs (snd (increment_windows d now a p m wts)) = configs d"
proof (induction wts arbitrary: d)
  case Nil
  show ?case by simp
next
  case (Cons wt wts)
  obtain r d1 where i: "incrementWindow d now a p m wt 0 = (r, d1)"
    by (cases "incrementWindow d now a p m wt 0")
  have f: "queue d1 = queue d" "events d1 = events d" "patterns d1 = patterns d" "configs d1 = configs d"
    using incrementWindow_frame [of d now a p m wt 0] i by simp_all
  show ?case
  proof (cases r)
    case (Inl e)
    with i f show ?thesis by simp
  next
    case (Inr u)
    with i f Cons.IH [of d1] show ?thesis by simp
  qed
qed

lemma increment_windows_frame [simp]:
  "queue (snd (increment_windows d now a p m wts)) = queue d"
  "events (snd (increment_windows d now a p m wts)) = events d"
  "patterns (snd (increment_windows d now a p m wts)) = patterns d"
  "configs (snd (increment_windows d now a p m wts)) = configs d"
  using increment_windows_frame_all [of d now a p m wts] by simp_all

lemma increment_windows_effect:
  assumes "windows_ok d now" "distinct wts"
  shows "fst (increment_windows d now a p m wts) = Inr () \<and>
     windows_ok (snd (increment_windows d now a p m wts)) now \<and>
     total_requests (snd (increment_windows d now a p m wts)) a' p' m' wt'
       = total_requests d a' p' m' wt'
         + (if a' = a \<and> p' = p \<and> m' = m \<and> wt' \<in> set wts then 1 else 0) \<and>
     total_tokens (snd (increment_windows d now a p m wts)) a' p' m' wt' = total_tokens d a' p' m' wt'"
  using assms
proof (induction wts arbitrary: d)
  case Nil
  then show ?case by simp
next
  case (Cons wt wts)
  note e = incrementWindow_effect [OF Cons.prems(1), of a p m wt 0]
  obtain d1 where i: "incrementWindow d now a p m wt 0 = (Inr (), d1)"
    using e(1) by (cases "incrementWindow d now a p m wt 0") simp
  have ok1: "windows_ok d1 now" using e(2) i by simp
  from Cons.prems(2) have d: "distinct wts" "wt \<notin> set wts" by simp_all
  from Cons.IH [OF ok1 d(1)] e(3,4) [of a' p' m' wt'] i d(2)
  show ?case by auto
qed

lemma update_token_counts_frame [simp]:
  "queue (update_token_counts d now a p m toks wts) = queue d"
  "events (update_token_counts d now a p m toks wts) = events d"
  "patterns (update_token_counts d now a p m toks wts) = patterns d"
  "configs (update_token_counts d now a p m toks wts) = configs d"
  by (induction wts arbitrary: d; simp)+

lemma update_token_counts_effect:
  assumes "windows_ok d now" "distinct wts"
  shows "windows_ok (update_token_counts d now a p m toks wts) now \<and>
     total_requests (update_token_counts d now a p m toks wts) a' p' m' wt' = total_requests d a' p' m' wt' \<and>
     total_tokens (update_token_counts d now a p m toks wts) a' p' m' wt'
       = total_tokens d a' p' m' wt'
         + (if a' = a \<and> p' = p \<and> m' = m \<and> wt' \<in> set wts then toks else 0) \<and>
     token_update_only (windows d) (windows (update_token_counts d now a p m toks wts))"
  using assms
proof (induction wts arbitrary: d)
  case Nil
  then show ?case by (simp add: token_update_only_refl)
next
  case (Cons wt wts)
  note e = updateTokenCount_effect [OF Cons.prems(1), of a p m wt toks]
  from Cons.prems(2) have d: "distinct wts" "wt \<notin> set wts" by simp_all
  from Cons.IH [OF e(1) d(1)] e(2,3) [of a' p' m' wt'] e(4) d(2)
  show ?case by (auto intro: token_update_only_trans)
qed

section \<open>Rotation of expired windows\<close>

text \<open>
  Claim C2, as amended. For every admission check and every request increment made
  at a time \<open>now\<close> strictly after the end of the key's current window (in a
  well-formed window table), the operation first deactivates that window and
  creates a fresh active window with request count 0 and token count 0 aligned to
  \<open>[now, now + duration)\<close>; the decision is computed from the fresh window and the
  increment is applied to it, and the expired row keeps its counts.
\<close>

theorem rotation_when_expired:
  assumes ok: "windows_ok d now"
    and sel: "select_active d agent prov mdl wt = Some (j, old)"
    and stale: "now > window_end old"
  shows "(\<exists>w. fresh_row now agent prov mdl wt w \<and>
            fst (wouldExceedLimit d now agent prov mdl wt t) = checkWindowLimitDetailed w \<and>
            windows (snd (wouldExceedLimit d now agent prov mdl wt t))
              = (windows d)[j := old\<lparr>is_active := False\<rparr>] @ [w])
       \<and> (\<exists>w. fresh_row now agent prov mdl wt w \<and>
            fst (incrementWindow d now agent prov mdl wt toks) = Inr () \<and>
            windows (snd (incrementWindow d now agent prov mdl wt toks))
              = (windows d)[j := old\<lparr>is_active := False\<rparr>]
                @ [w\<lparr>request_count := 1, token_count := toks, last_updated := now\<rparr>])"
proof -
  obtain r d' where e: "ensure_current d now agent prov mdl wt = (r, d')"
    by (cases "ensure_current d now agent prov mdl wt")
  from ensure_current_ok [OF ok, of agent prov mdl wt] e obtain i w where
    r: "r = Inr (i, w)" and
    sh: "kept d now agent prov mdl wt i w (windows d') \<or> created d now agent prov mdl wt i w (windows d')
         \<or> rotated d now agent prov mdl wt i w (windows d')"
    by auto
  from sh sel stale have rot: "rotated d now agent prov mdl wt i w (windows d')"
    by (auto simp: kept_def created_def)
  then have f: "fresh_row now agent prov mdl wt w" "i = length (windows d)"
    "windows d' = (windows d)[j := old\<lparr>is_active := False\<rparr>] @ [w]"
    using sel by (auto simp: rotated_def)
  have 1: "fst (wouldExceedLimit d now agent prov mdl wt t) = checkWindowLimitDetailed w"
    "snd (wouldExceedLimit d now agent prov mdl wt t) = d'"
    using e r by (simp_all add: wouldExceedLimit_ensure)
  have 2: "fst (incrementWindow d now agent prov mdl wt toks) = Inr ()"
    "snd (incrementWindow d now agent prov mdl wt toks) = updateWindowCounts d' now i toks"
    using e r by (simp_all add: incrementWindow_ensure)
  have 3: "windows (updateWindowCounts d' now i toks)
      = (windows d)[j := old\<lparr>is_active := False\<rparr>]
        @ [w\<lparr>request_count := 1, token_count := toks, last_updated := now\<rparr>]"
  proof -
    let ?ws1 = "(windows d)[j := old\<lparr>is_active := False\<rparr>]"
    let ?w' = "w\<lparr>request_count := request_count w + 1,
                 token_count := token_count w + toks, last_updated := now\<rparr>"
    note c = shape_current [OF sh]
    have len: "i = length ?ws1" using f(2) by simp
    have "windows (updateWindowCounts d' now i toks) = (windows d')[i := ?w']"
      using c by (simp add: updateWindowCounts_def windows_update_window)
    also have "\<dots> = (?ws1 @ [w])[length ?ws1 := ?w']"
      unfolding f(3) len ..
    also have "\<dots> = ?ws1 @ [?w']"
      by (rule list_update_length)
    also have "?w' = w\<lparr>request_count := 1, token_count := toks, last_updated := now\<rparr>"
      using f(1) by (simp add: fresh_row_def)
    finally show ?thesis .
  qed
  from f(1,3) 1 2 3 show ?thesis by auto
qed

text \<open>The hypotheses hold for the used-up window one millisecond after its end.\<close>

lemma used_ok: "windows_ok used_db 60001"
  by (simp add: windows_ok_def used_db_def used_window_def empty_db_def)

lemma used_sel: "select_active used_db ''0xA'' ''anthropic'' None per_minute = Some (0, used_window)"
  by (simp add: select_active_def used_db_def empty_db_def window_matches_def used_window_def)

theorem rotation_when_expired_witness:
  "windows_ok used_db 60001 \<and>
   select_active used_db ''0xA'' ''anthropic'' None per_minute = Some (0, used_window) \<and>
   60001 > window_end used_window \<and>
   (\<exists>w. fresh_row 60001 ''0xA'' ''anthropic'' None per_minute w \<and>
        fst (wouldExceedLimit used_db 60001 ''0xA'' ''anthropic'' None per_minute FreeTier)
          = checkWindowLimitDetailed w \<and>
        windows (snd (wouldExceedLimit used_db 60001 ''0xA'' ''anthropic'' None per_minute FreeTier))
          = (windows used_db)[0 := used_window\<lparr>is_active := False\<rparr>] @ [w])
   \<and> (\<exists>w. fresh_row 60001 ''0xA'' ''anthropic'' None per_minute w \<and>
        fst (incrementWindow used_db 60001 ''0xA'' ''anthropic'' None per_minute 0) = Inr () \<and>
        windows (snd (incrementWindow used_db 60001 ''0xA'' ''anthropic'' None per_minute 0))
          = (windows used_db)[0 := used_window\<lparr>is_active := False\<rparr>]
            @ [w\<lparr>request_count := 1, token_count := 0, last_updated := 60001\<rparr>])"
proof -
  have h3: "60001 > window_end used_window" by (simp add: used_window_def)
  from rotation_when_expired [OF used_ok used_sel h3, of FreeTier 0] used_ok used_sel h3
  show ?thesis by blast
qed

text \<open>
  Claim C2 as stated fails. At \<open>now = window_end\<close> exactly (the source rotates on
  \<open>now > window_end\<close>) the check and the increment use the expired window: the check
  answers from its 50 requests and the increment raises it to 51, with no new row.
  The post-call token addition never rotates: one minute after the end the tokens
  are still added to the expired row.
\<close>

theorem stale_window_used_counterexample:
  "window_end used_window \<le> 60000 \<and>
   exceeded (fst (wouldExceedLimit used_db 60000 ''0xA'' ''anthropic'' None per_minute FreeTier)) \<and>
   windows (snd (wouldExceedLimit used_db 60000 ''0xA'' ''anthropic'' None per_minute FreeTier))
     = [used_window] \<and>
   windows (snd (incrementWindow used_db 60000 ''0xA'' ''anthropic'' None per_minute 0))
     = [used_window\<lparr>request_count := 51, last_updated := 60000\<rparr>] \<and>
   window_end used_window < 120000 \<and>
   windows (updateTokenCount used_db 120000 ''0xA'' ''anthropic'' None per_minute 7)
     = [used_window\<lparr>token_count := 7, last_updated := 120000\<rparr>]"
  by (simp add: wouldExceedLimit_def incrementWindow_def updateTokenCount_def getCurrentWindow_def
      used_sel checkWindowLimitDetailed_def updateWindowCounts_def update_window_def)
     (simp add: used_db_def used_window_def empty_db_def)

section \<open>The quota check\<close>

lemma available_checkQuota: "available (fst (checkQuotaAvailable d now agent))"
  by (simp add: checkQuotaAvailable_def Let_def split_beta)

text \<open>
  Claim C10. For every tenant the store's quota check returns \<open>available = true\<close>, so
  the pre-call branch that rejects with "Quota exceeded" is never taken: no pre-call
  ends in that error.
\<close>

theorem quota_check_never_rejects:
  "available (fst (checkQuotaAvailable d now agent)) \<and>
   fst (beforeProvider d now requestId prov mdl agentId sessionId requestData uuid)
     \<noteq> QuotaExceededError"
proof -
  obtain q d1 where c: "checkQuotaAvailable d now (wallet_of requestData agentId) = (q, d1)"
    by (cases "checkQuotaAvailable d now (wallet_of requestData agentId)")
  have a: "available q"
    using available_checkQuota [of d now "wallet_of requestData agentId"] c by simp
  have "fst (beforeProvider d now requestId prov mdl agentId sessionId requestData uuid)
     \<noteq> QuotaExceededError"
    using a c
    by (simp add: beforeProvider_def Let_def split: prod.splits option.splits sum.splits)
  with available_checkQuota show ?thesis by simp
qed

section \<open>Limit resolution for unknown providers\<close>

lemma unknown_provider_defaults:
  assumes "prov \<noteq> ''anthropic''" "prov \<noteq> ''openai''" "prov \<noteq> ''google''"
    and "\<forall>c\<in>set (configs d). c_provider c \<noteq> prov"
  shows "fst (getLimits d now agent prov mdl) = anthropic_free"
proof -
  have "find (\<lambda>c. c_provider c = prov \<and> P c) (configs d) = None" for P
    using assms(4) by (auto simp: find_None_iff)
  then show ?thesis
    using assms(1-3)
    by (simp add: getLimits_def Let_def split_beta getDefaultLimits_def split: option.splits)
qed

lemma createWindow_limits:
  assumes "fst (createWindow d now a p m wt) = Inr (i, w)"
  shows "limit_requests w = getLimitForWindowType (fst (getLimits d now a p m)) wt requests"
    "limit_tokens w = getLimitForWindowType (fst (getLimits d now a p m)) wt tokens"
  using assms by (auto simp: createWindow_def Let_def split_beta split: if_splits)

lemma select_active_NoneI:
  assumes "\<forall>x\<in>set (windows d). \<not> window_matches a p m wt x"
  shows "select_active d a p m wt = None"
  using assms by (auto simp: select_active_def latest_None filter_empty_conv in_set_enumerate_eq)

lemma recordEvent_frame [simp]:
  "windows (recordEvent d now e) = windows d"
  "queue (recordEvent d now e) = queue d"
  "patterns (recordEvent d now e) = patterns d"
  "configs (recordEvent d now e) = configs d"
  "quotas (recordEvent d now e) = quotas d"
  by (simp_all add: recordEvent_def)

section \<open>Admission to the queue\<close>

lemma getQueueSize_append:
  "queue d' = queue d @ [row] \<Longrightarrow>
   getQueueSize d' agent
     = getQueueSize d agent + (if qe_agent_wallet row = agent \<and> status row = pending then 1 else 0)"
  by (simp add: getQueueSize_def)

lemma getQueueSize_cong: "queue d' = queue d \<Longrightarrow> getQueueSize d' agent = getQueueSize d agent"
  by (simp add: getQueueSize_def)

text \<open>
  Claim C5. For every tenant, \<open>enqueue\<close> fails with QueueDisabled exactly when the
  tenant's effective tier does not grant queueing; it fails with QueueFull exactly
  when queueing is granted and the tenant's count of pending entries has reached
  its maximum queue size (the checks are made in this order); otherwise, under a
  fresh queue id, it inserts exactly one new pending entry, and the tenant's
  pending count is then at most the maximum queue size.
\<close>

theorem enqueue_outcomes:
  "(fst (enqueue d now agent prov mdl requestData pri uuid) = Inl QueueDisabled
      \<longleftrightarrow> \<not> can_queue (fst (checkQuotaAvailable d now agent)))
   \<and> ((\<exists>n m. fst (enqueue d now agent prov mdl requestData pri uuid) = Inl (QueueFull n m))
      \<longleftrightarrow> can_queue (fst (checkQuotaAvailable d now agent)) \<and>
          getQueueSize d agent \<ge> max_queue_size (fst (checkQuotaAvailable d now agent)))
   \<and> (can_queue (fst (checkQuotaAvailable d now agent)) \<and>
       getQueueSize d agent < max_queue_size (fst (checkQuotaAvailable d now agent)) \<and>
       uuid \<notin> queue_id ` set (queue d)
      \<longrightarrow> fst (enqueue d now agent prov mdl requestData pri uuid) = Inr uuid \<and>
          (\<exists>row. queue (snd (enqueue d now agent prov mdl requestData pri uuid)) = queue d @ [row] \<and>
             queue_id row = uuid \<and> qe_agent_wallet row = agent \<and> status row = pending \<and>
             retry_count row = 0) \<and>
          getQueueSize (snd (enqueue d now agent prov mdl requestData pri uuid)) agent
            = getQueueSize d agent + 1 \<and>
          getQueueSize (snd (enqueue d now agent prov mdl requestData pri uuid)) agent
            \<le> max_queue_size (fst (checkQuotaAvailable d now agent)))"
proof -
  obtain q d1 where c: "checkQuotaAvailable d now agent = (q, d1)"
    by (cases "checkQuotaAvailable d now agent")
  have d1: "d1 = snd (checkQuotaAvailable d now agent)" using c by simp
  have qd1: "queue d1 = queue d" unfolding d1 by simp
  have s1: "getQueueSize d1 agent = getQueueSize d agent" using qd1 by (rule getQueueSize_cong)
  have ex: "list_ex (\<lambda>r. queue_id r = uuid) (queue d) \<longleftrightarrow> uuid \<in> queue_id ` set (queue d)"
    by (auto simp: list_ex_iff)
  show ?thesis
    unfolding enqueue_def c
    by (simp add: Let_def s1 ex qd1 getQueueSize_def)
qed


theorem enqueue_outcomes_witness:
  "can_queue (fst (checkQuotaAvailable pro_db 1000 ''0xP'')) \<and>
   getQueueSize pro_db ''0xP'' < max_queue_size (fst (checkQuotaAvailable pro_db 1000 ''0xP'')) \<and>
   ''q-1'' \<notin> queue_id ` set (queue pro_db) \<and>
   fst (enqueue pro_db 1000 ''0xP'' ''anthropic'' None plain_request (Some 5) ''q-1'') = Inr ''q-1'' \<and>
   getQueueSize (snd (enqueue pro_db 1000 ''0xP'' ''anthropic'' None plain_request (Some 5) ''q-1''))
     ''0xP'' = 1"
proof -
  have h: "can_queue (fst (checkQuotaAvailable pro_db 1000 ''0xP''))"
    "getQueueSize pro_db ''0xP'' < max_queue_size (fst (checkQuotaAvailable pro_db 1000 ''0xP''))"
    "''q-1'' \<notin> queue_id ` set (queue pro_db)"
    "getQueueSize pro_db ''0xP'' = 0"
    by (simp_all add: checkQuotaAvailable_def getQuota_def pro_db_def empty_db_def pro_quota_def
        getQueueSize_def)
  from enqueue_outcomes [of pro_db 1000 "''0xP''" "''anthropic''" None plain_request "Some 5" "''q-1''"] h
  show ?thesis by simp
qed

section \<open>Expiry of queued entries\<close>

lemma complete_frame [simp]:
  "windows (complete d now k s e) = windows d"
  "events (complete d now k s e) = events d"
  "patterns (complete d now k s e) = patterns d"
  "configs (complete d now k s e) = configs d"
  "quotas (complete d now k s e) = quotas d"
  by (simp_all add: complete_def)

lemma mark_processing_frame [simp]:
  "windows (mark_processing d now k) = windows d"
  "events (mark_processing d now k) = events d"
  "patterns (mark_processing d now k) = patterns d"
  "configs (mark_processing d now k) = configs d"
  "quotas (mark_processing d now k) = quotas d"
  by (simp_all add: mark_processing_def)

lemma candidate_pending:
  assumes "first_in_order (dequeue_candidates d agentOpt) = Some c"
  shows "c \<in> set (queue d)" "status c = pending" "retry_count c < max_retries c"
  using first_in_order_mem [OF assms] by (auto simp: dequeue_candidates_def)

text \<open>\<open>dequeue\<close> touches the queue only.\<close>

lemma dequeue_frame:
  "windows (snd (dequeue d now utcOffset agentOpt)) = windows d \<and>
   events (snd (dequeue d now utcOffset agentOpt)) = events d \<and>
   patterns (snd (dequeue d now utcOffset agentOpt)) = patterns d \<and>
   configs (snd (dequeue d now utcOffset agentOpt)) = configs d \<and>
   quotas (snd (dequeue d now utcOffset agentOpt)) = quotas d"
proof (induction d now utcOffset agentOpt rule: dequeue.induct)
  case (1 d now utcOffset agentOpt)
  show ?case
  proof (cases "first_in_order (dequeue_candidates d agentOpt)")
    case None
    then show ?thesis by (simp add: dequeue.simps [of d])
  next
    case (Some c)
    show ?thesis
    proof (cases "now - parse_local utcOffset (queued_at c) > maxQueueAge")
      case True
      with Some "1.IH" [OF Some refl True] show ?thesis
        by (simp add: dequeue.simps [of d])
    next
      case False
      with Some show ?thesis by (simp add: dequeue.simps [of d])
    qed
  qed
qed

text \<open>The entry that \<open>dequeue\<close> returns is a pending entry of the queue that is not
  older than \<open>maxQueueAge\<close>.\<close>

lemma dequeue_returns_fresh:
  "fst (dequeue d now utcOffset agentOpt) = Some q \<Longrightarrow>
     now - parse_local utcOffset (queued_at q) \<le> maxQueueAge \<and> q \<in> set (queue d) \<and> status q = pending"
proof (induction d now utcOffset agentOpt rule: dequeue.induct)
  case (1 d now utcOffset agentOpt)
  show ?case
  proof (cases "first_in_order (dequeue_candidates d agentOpt)")
    case None
    with "1.prems" show ?thesis by (simp add: dequeue.simps [of d])
  next
    case (Some c)
    note cp = candidate_pending [OF Some]
    show ?thesis
    proof (cases "now - parse_local utcOffset (queued_at c) > maxQueueAge")
      case True
      let ?d1 = "complete d now (queue_id c) False (Some ''Request expired in queue'')"
      from "1.prems" Some True have r: "fst (dequeue ?d1 now utcOffset agentOpt) = Some q"
        by (simp add: dequeue.simps [of d])
      from "1.IH" [OF Some refl True r]
      have q: "now - parse_local utcOffset (queued_at q) \<le> maxQueueAge" "q \<in> set (queue ?d1)" "status q = pending"
        by simp_all
      from q(2,3) have "q \<in> set (queue d)"
        by (auto simp: complete_def split: if_splits)
      with q show ?thesis by simp
    next
      case False
      with "1.prems" Some cp show ?thesis by (simp add: dequeue.simps [of d])
    qed
  qed
qed

lemma dequeue_keeps_expired:
  "expired_rows k d \<Longrightarrow> expired_rows k (snd (dequeue d now utcOffset agentOpt))"
proof (induction d now utcOffset agentOpt rule: dequeue.induct)
  case (1 d now utcOffset agentOpt)
  show ?case
  proof (cases "first_in_order (dequeue_candidates d agentOpt)")
    case None
    with "1.prems" show ?thesis by (simp add: dequeue.simps [of d])
  next
    case (Some c)
    note cp = candidate_pending [OF Some]
    show ?thesis
    proof (cases "now - parse_local utcOffset (queued_at c) > maxQueueAge")
      case True
      let ?d1 = "complete d now (queue_id c) False (Some ''Request expired in queue'')"
      have "expired_rows k ?d1"
        using "1.prems" by (auto simp: expired_rows_def complete_def)
      from "1.IH" [OF Some refl True this] Some True show ?thesis
        by (simp add: dequeue.simps [of d])
    next
      case False
      from "1.prems" cp have "queue_id c \<noteq> k" by (auto simp: expired_rows_def)
      with "1.prems" have "expired_rows k (mark_processing d now (queue_id c))"
        by (auto simp: expired_rows_def mark_processing_def)
      with Some False show ?thesis by (simp add: dequeue.simps [of d])
    qed
  qed
qed

text \<open>In terms of the age that \<open>dequeue\<close> computes, the expiry does what it is written
  for: a selected entry whose computed age exceeds the maximum is failed with the
  error text of an expiry and stays failed, no window is touched, the query is run
  again, and no entry that \<open>dequeue\<close> returns has a computed age above the maximum.\<close>

lemma dequeue_expiry_step:
  assumes sel: "first_in_order (dequeue_candidates d agentOpt) = Some c"
    and old: "now - parse_local utcOffset (queued_at c) > maxQueueAge"
  shows "dequeue d now utcOffset agentOpt
           = dequeue (complete d now (queue_id c) False (Some ''Request expired in queue''))
               now utcOffset agentOpt
       \<and> expired_rows (queue_id c)
           (complete d now (queue_id c) False (Some ''Request expired in queue''))
       \<and> expired_rows (queue_id c) (snd (dequeue d now utcOffset agentOpt))
       \<and> windows (snd (dequeue d now utcOffset agentOpt)) = windows d
       \<and> fst (dequeue d now utcOffset agentOpt) \<noteq> Some c
       \<and> (\<forall>q. fst (dequeue d now utcOffset agentOpt) = Some q \<longrightarrow>
              now - parse_local utcOffset (queued_at q) \<le> maxQueueAge)"
proof -
  let ?d1 = "complete d now (queue_id c) False (Some ''Request expired in queue'')"
  have step: "dequeue d now utcOffset agentOpt = dequeue ?d1 now utcOffset agentOpt"
    using sel old by (simp add: dequeue.simps [of d])
  have e1: "expired_rows (queue_id c) ?d1"
    by (auto simp: expired_rows_def complete_def)
  have e2: "expired_rows (queue_id c) (snd (dequeue d now utcOffset agentOpt))"
    unfolding step by (rule dequeue_keeps_expired [OF e1])
  have fresh: "\<forall>q. fst (dequeue d now utcOffset agentOpt) = Some q \<longrightarrow>
      now - parse_local utcOffset (queued_at q) \<le> maxQueueAge"
    using dequeue_returns_fresh [of d now utcOffset agentOpt] by blast
  have "fst (dequeue d now utcOffset agentOpt) \<noteq> Some c"
    using fresh old by auto
  with step e1 e2 fresh dequeue_frame [of d now utcOffset agentOpt] show ?thesis by blast
qed

text \<open>The computed age is the age of the entry (\<open>now\<close> minus the stored \<open>queued_at\<close>) plus
  the host's offset from UTC; the two agree only on a host whose local time is UTC.\<close>

lemma computed_age:
  "now - parse_local utcOffset (queued_at q) = (now - queued_at q) + utcOffset"
  by (simp add: parse_local_def)

lemma dequeue_expires_at_utc:
  "fst (dequeue aged_db 2000000 0 None) = Some (queued_entry ''q-new'' ''0xP'' 5 1900000) \<and>
   expired_rows ''q-old'' (snd (dequeue aged_db 2000000 0 None))"
  by code_simp

text \<open>
  Claim C6 does not hold of the code. An entry is queued at 1000 ms; \<open>dequeue\<close> runs 40
  minutes later, when the age of the entry exceeds the maximum queue age of 30
  minutes. On a host whose local time is five hours behind UTC the entry is not
  failed as expired: \<open>dequeue\<close> returns it for admission and marks it as processing,
  because the age it computes from the stored UTC text, read as local time, is five
  hours less than the age of the entry. On a host one hour ahead of UTC the same
  entry is failed as expired one second after it was queued.
\<close>

theorem dequeue_returns_old_entry:
  "(case enqueue pro_db 1000 ''0xP'' ''anthropic'' None plain_request (Some 5) ''q-1'' of
      (r, d1) \<Rightarrow>
        r = Inr ''q-1'' \<and>
        map queued_at (queue d1) = [1000] \<and>
        maxQueueAge < 2401000 - 1000 \<and>
        (case dequeue d1 2401000 (- 18000000) None of
           (res, d2) \<Rightarrow>
             map_option queue_id res = Some ''q-1'' \<and>
             map (\<lambda>q. (queue_id q, status q, qe_error q)) (queue d2)
               = [(''q-1'', processing, None)]) \<and>
        (case dequeue d1 2000 3600000 None of
           (res, d2) \<Rightarrow>
             res = None \<and>
             map (\<lambda>q. (queue_id q, status q, qe_error q)) (queue d2)
               = [(''q-1'', failed, Some ''Request expired in queue'')]))"
  by code_simp

section \<open>Persistence of detected patterns\<close>

text \<open>\<open>storePattern\<close> never changes a stored row: it appends one row, or nothing when
  the id is taken.\<close>

lemma storePattern_appends:
  "\<exists>rows. patterns (storePattern d now agent pat uuid) = patterns d @ rows \<and> length rows \<le> 1"
  by (simp add: storePattern_def Let_def)

lemma store_retained_appends:
  "\<exists>rows. patterns (snd (store_retained d now agent as)) = patterns d @ rows"
proof (induction as arbitrary: d)
  case Nil
  show ?case by simp
next
  case (Cons x as)
  obtain pat uuid where x: "x = (pat, uuid)" by (cases x)
  from storePattern_appends [of d now agent pat uuid] obtain r1 where
    r1: "patterns (storePattern d now agent pat uuid) = patterns d @ r1" by blast
  from Cons.IH [of "storePattern d now agent pat uuid"] obtain r2 where
    "patterns (snd (store_retained (storePattern d now agent pat uuid) now agent as))
       = patterns (storePattern d now agent pat uuid) @ r2" by blast
  with r1 Cons.IH [of d] x show ?case
    by (auto simp: split_beta)
qed

lemma analyzeUsage_keeps_rows:
  "take (length (patterns d)) (patterns (snd (analyzeUsage d now agent n as))) = patterns d"
  using store_retained_appends [of d now agent as]
  by (auto simp: analyzeUsage_def)

text \<open>
  Claim C8 does not hold of the code. Two analysis runs for the same tenant that
  both retain the burst pattern leave two rows of type \<open>burst\<close>, each under its own
  random id and each with observation count 1: \<open>storePattern\<close> does a plain INSERT
  and does not use the store's upsert.
\<close>

theorem analysis_rerun_adds_rows:
  "patterns (snd (analyzeUsage
                    (snd (analyzeUsage empty_db 1000 ''0xP'' 12 [(burst_pattern, ''uuid-1'')]))
                    2000 ''0xP'' 12 [(burst_pattern, ''uuid-2'')]))
   = [burst_row ''uuid-1'' 1000, burst_row ''uuid-2'' 2000]"
  by (simp add: analyzeUsage_def minEventsForPattern_def minPatternConfidence_def
      storePattern_def burst_pattern_def burst_row_def empty_db_def Let_def
      rat_or_null_def or_null_def truthy_def)

section \<open>Events recorded by the pre-call\<close>

lemma enqueue_frame [simp]:
  "windows (snd (enqueue d now a p m rd pri u)) = windows d"
  "events (snd (enqueue d now a p m rd pri u)) = events d"
  "patterns (snd (enqueue d now a p m rd pri u)) = patterns d"
  "configs (snd (enqueue d now a p m rd pri u)) = configs d"
  by (simp_all add: enqueue_def Let_def split_beta)

text \<open>The kinds of the events that one pre-call appends, by outcome. Every outcome
  but the queue-full refusal (and an error propagated from \<open>enqueue\<close>) appends
  exactly one event.\<close>

lemma beforeProvider_events:
  "\<exists>new. events (snd (beforeProvider d now requestId prov mdl agentId sessionId requestData uuid))
            = events d @ new \<and>
     (case fst (beforeProvider d now requestId prov mdl agentId sessionId requestData uuid) of
        Admitted dec \<Rightarrow> map event_type new = [''allowed'']
      | RequestQueuedError qid wt r \<Rightarrow> map event_type new = [''queued'']
      | RateLimitExceededError wt r \<Rightarrow> map event_type new = [''blocked'']
      | QueueFullError n mx wt r \<Rightarrow> new = []
      | QuotaExceededError \<Rightarrow> new = []
      | Propagated e \<Rightarrow> length new \<le> 1)"
proof -
  let ?a = "wallet_of requestData agentId"
  obtain q d0 where cq: "checkQuotaAvailable d now ?a = (q, d0)"
    by (cases "checkQuotaAvailable d now ?a")
  have d0: "d0 = snd (checkQuotaAvailable d now ?a)" using cq by simp
  have e0: "events d0 = events d" unfolding d0 by simp
  obtain w d2 where cw: "check_windows d0 now ?a prov mdl (tier q) all_windows = (w, d2)"
    by (cases "check_windows d0 now ?a prov mdl (tier q) all_windows")
  have d2: "d2 = snd (check_windows d0 now ?a prov mdl (tier q) all_windows)" using cw by simp
  have e2: "events d2 = events d" unfolding d2 using e0 by simp
  show ?thesis
  proof (cases w)
    case None
    let ?d3 = "recordEvent d2 now (event_data ?a prov mdl ''allowed'' None requestId False)"
    obtain r d4 where inc: "increment_windows ?d3 now ?a prov mdl all_windows = (r, d4)"
      by (cases "increment_windows ?d3 now ?a prov mdl all_windows")
    have d4: "d4 = snd (increment_windows ?d3 now ?a prov mdl all_windows)" using inc by simp
    have e4: "events d4 = events d @ [(event_data ?a prov mdl ''allowed'' None requestId False)
        \<lparr>e_timestamp := now,
          e_model := str_or_null (e_model (event_data ?a prov mdl ''allowed'' None requestId False)),
          current_count := or_null (current_count (event_data ?a prov mdl ''allowed'' None requestId False)),
          limit_value := or_null (limit_value (event_data ?a prov mdl ''allowed'' None requestId False)),
          percent_used := rat_or_null (percent_used (event_data ?a prov mdl ''allowed'' None requestId False)),
          e_request_id := str_or_null (e_request_id (event_data ?a prov mdl ''allowed'' None requestId False))\<rparr>]"
      unfolding d4 using e2 by (simp add: recordEvent_def)
    have t: "event_type (event_data ?a prov mdl ''allowed'' None requestId False) = ''allowed''"
      by (simp add: event_data_def)
    show ?thesis
      using cq cw None inc e4 t
      by (cases r) (simp_all add: beforeProvider_def Let_def available_checkQuota [of d now ?a, unfolded cq, simplified])
  next
    case (Some wr)
    obtain wt r where wr: "wr = (wt, r)" by (cases wr)
    show ?thesis
    proof (cases "tier q = ProTier \<and> can_queue q")
      case False
      have t: "event_type (event_data ?a prov mdl ''blocked'' (Some (wt, r)) requestId False) = ''blocked''"
        by (simp add: event_data_def)
      show ?thesis
        using cq cw Some wr False e2 t
        by (auto simp: beforeProvider_def Let_def recordEvent_def
            available_checkQuota [of d now ?a, unfolded cq, simplified])
    next
      case True
      show ?thesis
      proof (cases "getQueueSize d2 ?a \<ge> max_queue_size q")
        case full: True
        show ?thesis
          using cq cw Some wr True full e2
          by (simp add: beforeProvider_def Let_def
              available_checkQuota [of d now ?a, unfolded cq, simplified])
      next
        case room: False
        let ?pri = "Some (case rd_priority requestData of None \<Rightarrow> 5
                          | Some p \<Rightarrow> if p = 0 then 5 else p)"
        obtain er d3 where en: "enqueue d2 now ?a prov mdl requestData ?pri uuid = (er, d3)"
          by (cases "enqueue d2 now ?a prov mdl requestData ?pri uuid")
        have d3: "d3 = snd (enqueue d2 now ?a prov mdl requestData ?pri uuid)" using en by simp
        have e3: "events d3 = events d" unfolding d3 using e2 by simp
        have t: "event_type (event_data ?a prov mdl ''queued'' (Some (wt, r)) requestId True) = ''queued''"
          by (simp add: event_data_def)
        show ?thesis
          using cq cw Some wr True room en e3 t
          by (cases er) (simp_all add: beforeProvider_def Let_def recordEvent_def
              available_checkQuota [of d now ?a, unfolded cq, simplified])
      qed
    qed
  qed
qed

text \<open>
  Claim C3 does not hold of the code. With 100 pending entries (the tenant's maximum)
  and an exhausted minute window, the pre-call of the pro tenant is refused with
  "Queue full" and the event table stays empty: this refusal is thrown before any
  call of \<open>recordEvent\<close>.
\<close>

theorem queue_full_records_no_event:
  "(case beforeProvider pro_db_full 1000 ''r1'' ''anthropic'' None ''0xP'' ''s1'' plain_request ''u1''
    of (out, d') \<Rightarrow>
      out = QueueFullError 100 100 per_minute
              \<lparr>exceeded = True, current = 1000, limit = 1000, percentUsed = 100\<rparr> \<and>
      events d' = [] \<and> events pro_db_full = [])"
  by code_simp

section \<open>The queue drain of the post-call\<close>

lemma complete_ids [simp]: "map queue_id (queue (complete d now k s e)) = map queue_id (queue d)"
  by (simp add: complete_def o_def)

lemma mark_processing_ids [simp]:
  "map queue_id (queue (mark_processing d now k)) = map queue_id (queue d)"
  by (simp add: mark_processing_def o_def)

lemma distinct_ids_unique:
  assumes "distinct (map queue_id xs)" "x \<in> set xs" "y \<in> set xs" "queue_id x = queue_id y"
  shows "x = y"
  using assms by (meson distinct_map inj_onD)

text \<open>With distinct queue ids, the row of the entry that \<open>dequeue\<close> returns is that entry
  marked as processing.\<close>

lemma dequeue_marks:
  assumes "fst (dequeue d now utcOffset agentOpt) = Some q" "distinct (map queue_id (queue d))"
  shows "distinct (map queue_id (queue (snd (dequeue d now utcOffset agentOpt)))) \<and>
     (\<exists>r\<in>set (queue (snd (dequeue d now utcOffset agentOpt))). queue_id r = queue_id q) \<and>
     (\<forall>r\<in>set (queue (snd (dequeue d now utcOffset agentOpt))). queue_id r = queue_id q \<longrightarrow>
        r = q\<lparr>status := processing, processed_at := Some now\<rparr>)"
  using assms
proof (induction d now utcOffset agentOpt rule: dequeue.induct)
  case (1 d now utcOffset agentOpt)
  show ?case
  proof (cases "first_in_order (dequeue_candidates d agentOpt)")
    case None
    with "1.prems" show ?thesis by (simp add: dequeue.simps [of d])
  next
    case (Some c)
    note cp = candidate_pending [OF Some]
    show ?thesis
    proof (cases "now - parse_local utcOffset (queued_at c) > maxQueueAge")
      case True
      let ?d1 = "complete d now (queue_id c) False (Some ''Request expired in queue'')"
      have step: "dequeue d now utcOffset agentOpt = dequeue ?d1 now utcOffset agentOpt"
        using Some True by (simp add: dequeue.simps [of d])
      have "distinct (map queue_id (queue ?d1))" using "1.prems"(2) by simp
      from "1.IH" [OF Some refl True _ this] "1.prems"(1) step show ?thesis by simp
    next
      case False
      have res: "dequeue d now utcOffset agentOpt = (Some c, mark_processing d now (queue_id c))"
        using Some False by (simp add: dequeue.simps [of d])
      with "1.prems"(1) have qc: "q = c" by simp
      have "\<forall>r\<in>set (queue d). queue_id r = queue_id c \<longrightarrow> r = c"
        using distinct_ids_unique [OF "1.prems"(2) _ cp(1)] by blast
      then have "\<forall>r\<in>set (queue (mark_processing d now (queue_id c))). queue_id r = queue_id c \<longrightarrow>
          r = c\<lparr>status := processing, processed_at := Some now\<rparr>"
        by (auto simp: mark_processing_def)
      moreover have "c\<lparr>status := processing, processed_at := Some now\<rparr>
          \<in> set (queue (mark_processing d now (queue_id c)))"
        using cp(1) by (force simp: mark_processing_def image_iff)
      then have "\<exists>r\<in>set (queue (mark_processing d now (queue_id c))). queue_id r = queue_id c"
        by (intro bexI [of _ "c\<lparr>status := processing, processed_at := Some now\<rparr>"]) simp_all
      ultimately show ?thesis using res qc "1.prems"(2) by simp
    qed
  qed
qed

lemma repend_frame [simp]:
  "windows (repend d k) = windows d"
  "events (repend d k) = events d"
  "patterns (repend d k) = patterns d"
  "configs (repend d k) = configs d"
  by (simp_all add: repend_def)

lemma drain_length: "length (fst (drain n d now utcOffset)) \<le> n"
proof (induction n arbitrary: d)
  case 0
  show ?case by simp
next
  case (Suc n)
  obtain r d1 where dq: "dequeue d now utcOffset None = (r, d1)" by (cases "dequeue d now utcOffset None")
  show ?case
  proof (cases r)
    case None
    with dq show ?thesis by simp
  next
    case (Some q)
    obtain chk d2 where we: "wouldExceedLimit d1 now (qe_agent_wallet q) (qe_provider q)
        (qe_model q) per_minute ProTier = (chk, d2)"
      by (cases "wouldExceedLimit d1 now (qe_agent_wallet q) (qe_provider q) (qe_model q)
                   per_minute ProTier")
    show ?thesis
    proof (cases "exceeded chk")
      case True
      with dq Some we show ?thesis by simp
    next
      case False
      obtain ir d4 where inc: "increment_windows (complete d2 now (queue_id q) True None) now
          (qe_agent_wallet q) (qe_provider q) (qe_model q) all_windows = (ir, d4)"
        by (cases "increment_windows (complete d2 now (queue_id q) True None) now
          (qe_agent_wallet q) (qe_provider q) (qe_model q) all_windows")
      show ?thesis
      proof (cases ir)
        case (Inl e)
        with dq Some we False inc show ?thesis by simp
      next
        case (Inr u)
        with dq Some we False inc Suc.IH [of d4] show ?thesis by (simp add: split_beta)
      qed
    qed
  qed
qed

lemma processQueue_bound:
  "length (fst (processQueue d now utcOffset agent)) \<le> 5 \<and>
   int (length (fst (processQueue d now utcOffset agent))) \<le> getQueueSize d agent"
proof -
  have "0 \<le> getQueueSize d agent" by (simp add: getQueueSize_def)
  moreover have "length (fst (drain (nat (min 5 (getQueueSize d agent))) d now utcOffset))
      \<le> nat (min 5 (getQueueSize d agent))"
    by (rule drain_length)
  ultimately show ?thesis by (auto simp: processQueue_def Let_def)
qed

lemma same_windows:
  assumes "windows d' = windows d"
  shows "windows_ok d' now = windows_ok d now"
    "total_requests d' a p m wt = total_requests d a p m wt"
    "total_tokens d' a p m wt = total_tokens d a p m wt"
  using assms by (simp_all add: windows_ok_def total_requests_def total_tokens_def)

lemma in_all_windows: "wt \<in> set all_windows"
  by (cases wt) (simp_all add: all_windows_def)

lemma distinct_all_windows: "distinct all_windows"
  by (simp add: all_windows_def)

lemma count_processed_simps [simp]:
  "count_processed [] a p m = 0"
  "count_processed (Processed q # steps) a p m
     = (if qe_agent_wallet q = a \<and> qe_provider q = p \<and> qe_model q = m then 1 else 0)
       + count_processed steps a p m"
  "count_processed (Requeued q # steps) a p m = count_processed steps a p m"
  by (simp_all add: count_processed_def)

text \<open>In a well-formed table the drain raises the request total of every horizon of a
  key by the number of that key's entries it has processed, and adds no tokens.\<close>

lemma drain_totals:
  assumes "windows_ok d now"
  shows "windows_ok (snd (drain n d now utcOffset)) now \<and>
     total_requests (snd (drain n d now utcOffset)) a p m wt
       = total_requests d a p m wt + count_processed (fst (drain n d now utcOffset)) a p m \<and>
     total_tokens (snd (drain n d now utcOffset)) a p m wt = total_tokens d a p m wt"
  using assms
proof (induction n arbitrary: d)
  case 0
  then show ?case by simp
next
  case (Suc n)
  obtain r d1 where dq: "dequeue d now utcOffset None = (r, d1)" by (cases "dequeue d now utcOffset None")
  have d1: "d1 = snd (dequeue d now utcOffset None)" using dq by simp
  have w1: "windows d1 = windows d" unfolding d1 using dequeue_frame [of d now utcOffset None] by simp
  note s1 = same_windows [OF w1]
  show ?case
  proof (cases r)
    case None
    with dq s1 Suc.prems show ?thesis by simp
  next
    case (Some q)
    let ?a = "qe_agent_wallet q" and ?p = "qe_provider q" and ?m = "qe_model q"
    obtain chk d2 where we: "wouldExceedLimit d1 now ?a ?p ?m per_minute ProTier = (chk, d2)"
      by (cases "wouldExceedLimit d1 now ?a ?p ?m per_minute ProTier")
    have d2: "d2 = snd (wouldExceedLimit d1 now ?a ?p ?m per_minute ProTier)" using we by simp
    have ok1: "windows_ok d1 now" using Suc.prems s1(1) by simp
    note e2 = wouldExceedLimit_effect [OF ok1, of ?a ?p ?m per_minute ProTier, folded d2]
    show ?thesis
    proof (cases "exceeded chk")
      case True
      have "windows (repend d2 (queue_id q)) = windows d2" by simp
      note s3 = same_windows [OF this]
      from dq Some we True show ?thesis
        by (simp add: s3 e2 s1)
    next
      case False
      let ?d3 = "complete d2 now (queue_id q) True None"
      have "windows ?d3 = windows d2" by simp
      note s3 = same_windows [OF this]
      have ok3: "windows_ok ?d3 now" using e2(1) s3(1) by simp
      note e4 = increment_windows_effect [OF ok3 distinct_all_windows, of ?a ?p ?m]
      obtain d4 where inc: "increment_windows ?d3 now ?a ?p ?m all_windows = (Inr (), d4)"
        using e4 [of a p m wt] by (cases "increment_windows ?d3 now ?a ?p ?m all_windows") simp
      have d4: "d4 = snd (increment_windows ?d3 now ?a ?p ?m all_windows)" using inc by simp
      have ok4: "windows_ok d4 now" unfolding d4 using e4 [of a p m wt] by simp
      have t4: "total_requests d4 a p m wt
          = total_requests d a p m wt + (if a = ?a \<and> p = ?p \<and> m = ?m then 1 else 0)"
        "total_tokens d4 a p m wt = total_tokens d a p m wt"
        unfolding d4 using e4 [of a p m wt] in_all_windows [of wt]
        by (simp_all add: s3 e2 s1)
      from Suc.IH [OF ok4] t4 dq Some we False inc show ?thesis
        by (auto simp: split_beta)
    qed
  qed
qed

lemma processQueue_totals:
  assumes "windows_ok d now"
  shows "total_requests (snd (processQueue d now utcOffset agent)) a p m wt
       = total_requests d a p m wt + count_processed (fst (processQueue d now utcOffset agent)) a p m"
  using drain_totals [OF assms, where n = "nat (min 5 (getQueueSize d agent))" and a = a
      and p = p and m = m and wt = wt and utcOffset = utcOffset]
  by (simp add: processQueue_def Let_def)

lemma first_in_order_None: "first_in_order xs = None \<longleftrightarrow> xs = []"
  by (cases xs) (auto split: option.splits)

lemma first_in_order_best:
  assumes "first_in_order xs = Some x" "y \<in> set xs"
  shows "priority y \<le> priority x \<and> (priority y = priority x \<longrightarrow> queued_at x \<le> queued_at y)"
  using assms
proof (induction xs arbitrary: x y)
  case Nil
  then show ?case by simp
next
  case (Cons z zs)
  show ?case
  proof (cases "first_in_order zs")
    case None
    then have "zs = []" by (simp add: first_in_order_None)
    with Cons.prems show ?thesis by simp
  next
    case (Some b)
    have b: "\<forall>y\<in>set zs. priority y \<le> priority b \<and>
        (priority y = priority b \<longrightarrow> queued_at b \<le> queued_at y)"
      using Cons.IH [OF Some] by auto
    have yz: "y = z \<or> y \<in> set zs" using Cons.prems(2) by auto
    show ?thesis
    proof (cases "priority b > priority z \<or> (priority b = priority z \<and> queued_at b < queued_at z)")
      case True
      with Some Cons.prems(1) have xb: "x = b" by simp
      from yz show ?thesis
      proof
        assume "y = z"
        then have "priority y = priority z" "queued_at y = queued_at z" by simp_all
        with True show ?thesis unfolding xb by linarith
      next
        assume "y \<in> set zs"
        with b show ?thesis unfolding xb by blast
      qed
    next
      case False
      with Some Cons.prems(1) have xz: "x = z" by simp
      from yz show ?thesis
      proof
        assume "y = z"
        then show ?thesis unfolding xz by simp
      next
        assume "y \<in> set zs"
        with b have "priority y \<le> priority b"
          "priority y = priority b \<longrightarrow> queued_at b \<le> queued_at y" by blast+
        with False show ?thesis unfolding xz by linarith
      qed
    qed
  qed
qed

text \<open>With distinct queue ids, the entry that \<open>dequeue\<close> returns has retries left, and
  among the candidates whose computed age is within the maximum none has a higher
  priority, or the same priority and an earlier \<open>queued_at\<close>.\<close>

lemma dequeue_returns_first:
  assumes "fst (dequeue d now utcOffset agentOpt) = Some q" "distinct (map queue_id (queue d))"
  shows "retry_count q < max_retries q \<and>
     (\<forall>r\<in>set (dequeue_candidates d agentOpt).
        now - parse_local utcOffset (queued_at r) \<le> maxQueueAge \<longrightarrow>
        priority r \<le> priority q \<and> (priority r = priority q \<longrightarrow> queued_at q \<le> queued_at r))"
  using assms
proof (induction d now utcOffset agentOpt rule: dequeue.induct)
  case (1 d now utcOffset agentOpt)
  show ?case
  proof (cases "first_in_order (dequeue_candidates d agentOpt)")
    case None
    with "1.prems" show ?thesis by (simp add: dequeue.simps [of d])
  next
    case (Some c)
    note cp = candidate_pending [OF Some]
    show ?thesis
    proof (cases "now - parse_local utcOffset (queued_at c) > maxQueueAge")
      case True
      let ?d1 = "complete d now (queue_id c) False (Some ''Request expired in queue'')"
      from "1.prems"(1) Some True have r: "fst (dequeue ?d1 now utcOffset agentOpt) = Some q"
        by (simp add: dequeue.simps [of d])
      have dist: "distinct (map queue_id (queue ?d1))" using "1.prems"(2) by simp
      note ih = "1.IH" [OF Some refl True r dist]
      have keep: "r \<in> set (dequeue_candidates ?d1 agentOpt)"
        if rc: "r \<in> set (dequeue_candidates d agentOpt)"
          and fr: "now - parse_local utcOffset (queued_at r) \<le> maxQueueAge" for r
      proof -
        from rc have rq: "r \<in> set (queue d)" by (simp add: dequeue_candidates_def)
        have "r \<noteq> c" using fr True by auto
        with distinct_ids_unique [OF "1.prems"(2) rq cp(1)] have "queue_id r \<noteq> queue_id c"
          by blast
        with rq have "r \<in> set (queue ?d1)" by (force simp: complete_def image_iff)
        with rc show ?thesis by (simp add: dequeue_candidates_def)
      qed
      from ih keep show ?thesis by blast
    next
      case False
      have "dequeue d now utcOffset agentOpt = (Some c, mark_processing d now (queue_id c))"
        using Some False by (simp add: dequeue.simps [of d])
      with "1.prems"(1) have qc: "q = c" by simp
      from first_in_order_best [OF Some] cp(3) show ?thesis unfolding qc by blast
    qed
  qed
qed

lemma processQueue_drain:
  "processQueue d now utcOffset agent
     = drain (nat (min 5 (getQueueSize d agent))) d now utcOffset"
  by (simp add: processQueue_def Let_def)

text \<open>The tracker operations may initialise quota rows but change none: the quota
  information of a tenant is the same before and after.\<close>

lemma quota_of_getQuota:
  "fst (getQuota d a) = quota_of d a" "quota_of (snd (getQuota d a)) = quota_of d"
  by (auto simp: getQuota_def quota_of_def fun_eq_iff split: option.splits)

lemma quota_of_checkQuotaAvailable:
  "quota_of (snd (checkQuotaAvailable d now a)) = quota_of d"
  using quota_of_getQuota(2) [of d a]
  by (simp add: checkQuotaAvailable_def Let_def split_beta)

lemma checkQuotaAvailable_quota_of:
  assumes "quota_of d' a = quota_of d a"
  shows "fst (checkQuotaAvailable d' now a) = fst (checkQuotaAvailable d now a)"
  using assms by (simp add: checkQuotaAvailable_def Let_def split_beta quota_of_getQuota(1))

lemma quota_of_getLimits: "quota_of (snd (getLimits d now a p m)) = quota_of d"
  using quota_of_checkQuotaAvailable [of d now a]
  by (simp add: getLimits_def Let_def split_beta split: option.splits)

lemma quota_of_cong: "quotas d' = quotas d \<Longrightarrow> quota_of d' = quota_of d"
  by (simp add: quota_of_def fun_eq_iff)

lemma quota_of_createWindow: "quota_of (snd (createWindow d now a p m wt)) = quota_of d"
  using quota_of_getLimits [of d now a p m]
  by (simp add: createWindow_def Let_def split_beta quota_of_def fun_eq_iff)

lemma quota_of_getCurrentWindow: "quota_of (snd (getCurrentWindow d now a p m wt)) = quota_of d"
  by (simp add: getCurrentWindow_def quota_of_createWindow split: option.splits)

lemma quota_of_update_window: "quota_of (update_window i f d) = quota_of d"
  by (rule quota_of_cong) simp

lemma quota_of_updateTokenCount: "quota_of (updateTokenCount d now a p m wt toks) = quota_of d"
proof -
  obtain r d1 where g: "getCurrentWindow d now a p m wt = (r, d1)"
    by (cases "getCurrentWindow d now a p m wt")
  have "quota_of d1 = quota_of d"
    using quota_of_getCurrentWindow [of d now a p m wt] g by simp
  with g show ?thesis
    by (cases r) (simp_all add: updateTokenCount_def quota_of_update_window)
qed

lemma quota_of_update_token_counts:
  "quota_of (update_token_counts d now a p m toks wts) = quota_of d"
  by (induction wts arbitrary: d) (simp_all add: quota_of_updateTokenCount)

text \<open>The post-call of a pro tenant that may queue: after the token update it runs the
  drain loop, with a bound of 5 or the number of the tenant's pending entries.\<close>

lemma afterProvider_drain:
  assumes dec: "rate_limit_decision request = Some dec" "d_allowed dec"
    and pro: "tier (fst (checkQuotaAvailable d now (wallet_of request agentId))) = ProTier"
      "can_queue (fst (checkQuotaAvailable d now (wallet_of request agentId)))"
  shows "\<exists>d2. afterProvider d now utcOffset requestId prov mdl agentId sessionId request resp
            = drain (nat (min 5 (getQueueSize d (wallet_of request agentId)))) d2 now utcOffset \<and>
          queue d2 = queue d \<and>
          windows d2 = windows (update_token_counts d now (wallet_of request agentId) prov mdl
                                  (tokensUsed resp) all_windows)"
proof -
  let ?a = "wallet_of request agentId"
  let ?d1 = "update_token_counts d now ?a prov mdl (tokensUsed resp) all_windows"
  obtain q d2 where cq: "checkQuotaAvailable ?d1 now ?a = (q, d2)"
    by (cases "checkQuotaAvailable ?d1 now ?a")
  have d2: "d2 = snd (checkQuotaAvailable ?d1 now ?a)" using cq by simp
  have "fst (checkQuotaAvailable ?d1 now ?a) = fst (checkQuotaAvailable d now ?a)"
    by (rule checkQuotaAvailable_quota_of) (simp add: quota_of_update_token_counts)
  with cq pro have q: "tier q = ProTier" "can_queue q" by simp_all
  have q2: "queue d2 = queue d" "windows d2 = windows ?d1" unfolding d2 by simp_all
  then have "getQueueSize d2 ?a = getQueueSize d ?a" by (simp add: getQueueSize_def)
  then have "afterProvider d now utcOffset requestId prov mdl agentId sessionId request resp
            = drain (nat (min 5 (getQueueSize d ?a))) d2 now utcOffset"
    using dec cq q by (simp add: afterProvider_def Let_def processQueue_drain)
  with q2 show ?thesis by blast
qed

lemma afterProvider_bound:
  "length (fst (afterProvider d now utcOffset requestId prov mdl agentId sessionId request resp))
     \<le> 5"
  using processQueue_bound [THEN conjunct1]
  by (auto simp: afterProvider_def Let_def split_beta split: option.splits)

text \<open>
  Claim C4, as amended. The post-call of a request with an allowed decision by a pro
  tenant that may queue runs, after its token update, the drain loop with a bound of
  5 or the number of that tenant's pending entries, whichever is smaller; so the
  loop runs at most 5 times. Each iteration dequeues, from the whole queue and
  whichever tenant it belongs to, the pending entry that has retries left and whose
  computed age is within the maximum, of highest priority and, among equal
  priorities, of earliest \<open>queued_at\<close>. If the minute-horizon would-exceed check for
  the entry's (tenant, provider, model) is false, the entry is marked completed and
  each of the three horizons of that key receives one request increment, and the
  loop goes on in a store that is again well-formed; otherwise the entry's status is
  set back to pending with its retry count unchanged, no count changes, and the loop
  stops. (Store well-formed, queue ids distinct.)
\<close>

theorem drain_iteration:
  assumes ok: "windows_ok d now"
    and ids: "distinct (map queue_id (queue d))"
    and deq: "dequeue d now utcOffset None = (Some q, d1)"
  shows "status q = pending \<and> q \<in> set (queue d)
     \<and> retry_count q < max_retries q
     \<and> now - parse_local utcOffset (queued_at q) \<le> maxQueueAge
     \<and> (\<forall>r\<in>set (queue d).
           status r = pending \<and> retry_count r < max_retries r \<and>
           now - parse_local utcOffset (queued_at r) \<le> maxQueueAge \<longrightarrow>
           priority r \<le> priority q \<and> (priority r = priority q \<longrightarrow> queued_at q \<le> queued_at r))
     \<and> (\<not> exceeded (fst (wouldExceedLimit d1 now (qe_agent_wallet q) (qe_provider q)
                               (qe_model q) per_minute ProTier)) \<longrightarrow>
          (\<exists>d4. drain (Suc n) d now utcOffset
                   = (Processed q # fst (drain n d4 now utcOffset), snd (drain n d4 now utcOffset)) \<and>
             (\<forall>r\<in>set (queue d4). queue_id r = queue_id q \<longrightarrow>
                r = q\<lparr>status := completed, qe_error := None, processed_at := Some now\<rparr>) \<and>
             (\<forall>wt. total_requests d4 (qe_agent_wallet q) (qe_provider q) (qe_model q) wt
                     = total_requests d (qe_agent_wallet q) (qe_provider q) (qe_model q) wt + 1) \<and>
             windows_ok d4 now \<and> distinct (map queue_id (queue d4))))
     \<and> (exceeded (fst (wouldExceedLimit d1 now (qe_agent_wallet q) (qe_provider q)
                               (qe_model q) per_minute ProTier)) \<longrightarrow>
          (\<exists>d3. drain (Suc n) d now utcOffset = ([Requeued q], d3) \<and>
             (\<forall>r\<in>set (queue d3). queue_id r = queue_id q \<longrightarrow>
                r = q\<lparr>processed_at := Some now\<rparr>) \<and>
             (\<forall>wt. total_requests d3 (qe_agent_wallet q) (qe_provider q) (qe_model q) wt
                     = total_requests d (qe_agent_wallet q) (qe_provider q) (qe_model q) wt)))
     \<and> length (fst (processQueue d now utcOffset agent)) \<le> 5
     \<and> int (length (fst (processQueue d now utcOffset agent))) \<le> getQueueSize d agent
     \<and> processQueue d now utcOffset agent
         = drain (nat (min 5 (getQueueSize d agent))) d now utcOffset
     \<and> length (fst (afterProvider d0 now utcOffset requestId prov mdl agentId sessionId
                       request resp)) \<le> 5
     \<and> (\<forall>dec. rate_limit_decision request = Some dec \<and> d_allowed dec \<and>
           tier (fst (checkQuotaAvailable d0 now (wallet_of request agentId))) = ProTier \<and>
           can_queue (fst (checkQuotaAvailable d0 now (wallet_of request agentId))) \<longrightarrow>
           (\<exists>d2. afterProvider d0 now utcOffset requestId prov mdl agentId sessionId request resp
                    = drain (nat (min 5 (getQueueSize d0 (wallet_of request agentId)))) d2 now
                        utcOffset \<and>
                 queue d2 = queue d0 \<and>
                 windows d2 = windows (update_token_counts d0 now (wallet_of request agentId) prov
                                         mdl (tokensUsed resp) all_windows)))"
proof -
  let ?a = "qe_agent_wallet q" and ?p = "qe_provider q" and ?m = "qe_model q"
  have fq: "fst (dequeue d now utcOffset None) = Some q"
    and d1: "d1 = snd (dequeue d now utcOffset None)"
    using deq by simp_all
  note fresh = dequeue_returns_fresh [OF fq]
  note first = dequeue_returns_first [OF fq ids]
  have best: "\<forall>r\<in>set (queue d).
           status r = pending \<and> retry_count r < max_retries r \<and>
           now - parse_local utcOffset (queued_at r) \<le> maxQueueAge \<longrightarrow>
           priority r \<le> priority q \<and> (priority r = priority q \<longrightarrow> queued_at q \<le> queued_at r)"
    using first by (simp add: dequeue_candidates_def)
  note marks = dequeue_marks [OF fq ids, folded d1]
  have rows1: "\<forall>r\<in>set (queue d1). queue_id r = queue_id q \<longrightarrow>
      r = q\<lparr>status := processing, processed_at := Some now\<rparr>"
    using marks by blast
  have ids1: "distinct (map queue_id (queue d1))" using marks by blast
  have w1: "windows d1 = windows d"
    unfolding d1 using dequeue_frame [of d now utcOffset None] by simp
  note s1 = same_windows [OF w1]
  have ok1: "windows_ok d1 now" using ok s1(1) by simp
  obtain chk d2 where we: "wouldExceedLimit d1 now ?a ?p ?m per_minute ProTier = (chk, d2)"
    by (cases "wouldExceedLimit d1 now ?a ?p ?m per_minute ProTier")
  have d2: "d2 = snd (wouldExceedLimit d1 now ?a ?p ?m per_minute ProTier)" using we by simp
  note e2 = wouldExceedLimit_effect [OF ok1, of ?a ?p ?m per_minute ProTier, folded d2]
  have q2: "queue d2 = queue d1" unfolding d2 by simp
  have A: "\<exists>d4. drain (Suc n) d now utcOffset
                   = (Processed q # fst (drain n d4 now utcOffset), snd (drain n d4 now utcOffset)) \<and>
             (\<forall>r\<in>set (queue d4). queue_id r = queue_id q \<longrightarrow>
                r = q\<lparr>status := completed, qe_error := None, processed_at := Some now\<rparr>) \<and>
             (\<forall>wt. total_requests d4 ?a ?p ?m wt = total_requests d ?a ?p ?m wt + 1) \<and>
             windows_ok d4 now \<and> distinct (map queue_id (queue d4))"
    if ne: "\<not> exceeded chk"
  proof -
    let ?d3 = "complete d2 now (queue_id q) True None"
    have "windows ?d3 = windows d2" by simp
    note s3 = same_windows [OF this]
    have ok3: "windows_ok ?d3 now" using e2(1) s3(1) by simp
    note e4 = increment_windows_effect [OF ok3 distinct_all_windows, of ?a ?p ?m]
    obtain d4 where inc: "increment_windows ?d3 now ?a ?p ?m all_windows = (Inr (), d4)"
      using e4 [of ?a ?p ?m per_minute]
      by (cases "increment_windows ?d3 now ?a ?p ?m all_windows") simp
    have d4: "d4 = snd (increment_windows ?d3 now ?a ?p ?m all_windows)" using inc by simp
    have q4: "queue d4 = queue ?d3" unfolding d4 by simp
    have rows4: "\<forall>r\<in>set (queue d4). queue_id r = queue_id q \<longrightarrow>
        r = q\<lparr>status := completed, qe_error := None, processed_at := Some now\<rparr>"
      unfolding q4 using rows1 q2 by (auto simp: complete_def)
    have t4: "\<forall>wt. total_requests d4 ?a ?p ?m wt = total_requests d ?a ?p ?m wt + 1"
    proof
      fix wt
      show "total_requests d4 ?a ?p ?m wt = total_requests d ?a ?p ?m wt + 1"
        unfolding d4 using e4 [of ?a ?p ?m wt] in_all_windows [of wt]
        by (simp add: s3 e2 s1)
    qed
    have ok4: "windows_ok d4 now" unfolding d4 using e4 [of ?a ?p ?m per_minute] by simp
    have ids4: "distinct (map queue_id (queue d4))" unfolding q4 using ids1 q2 by simp
    have "drain (Suc n) d now utcOffset
            = (Processed q # fst (drain n d4 now utcOffset), snd (drain n d4 now utcOffset))"
      using deq we ne inc by (simp add: split_beta)
    with rows4 t4 ok4 ids4 show ?thesis by blast
  qed
  have B: "\<exists>d3. drain (Suc n) d now utcOffset = ([Requeued q], d3) \<and>
             (\<forall>r\<in>set (queue d3). queue_id r = queue_id q \<longrightarrow> r = q\<lparr>processed_at := Some now\<rparr>) \<and>
             (\<forall>wt. total_requests d3 ?a ?p ?m wt = total_requests d ?a ?p ?m wt)"
    if ex: "exceeded chk"
  proof -
    let ?d3 = "repend d2 (queue_id q)"
    have "windows ?d3 = windows d2" by simp
    note s3 = same_windows [OF this]
    have rows3: "\<forall>r\<in>set (queue ?d3). queue_id r = queue_id q \<longrightarrow> r = q\<lparr>processed_at := Some now\<rparr>"
      using rows1 q2 fresh by (auto simp: repend_def)
    have t3: "\<forall>wt. total_requests ?d3 ?a ?p ?m wt = total_requests d ?a ?p ?m wt"
      by (simp add: s3 e2 s1)
    have "drain (Suc n) d now utcOffset = ([Requeued q], ?d3)"
      using deq we ex by simp
    with rows3 t3 show ?thesis by blast
  qed
  have c: "fst (wouldExceedLimit d1 now ?a ?p ?m per_minute ProTier) = chk" using we by simp
  have P: "\<forall>dec. rate_limit_decision request = Some dec \<and> d_allowed dec \<and>
           tier (fst (checkQuotaAvailable d0 now (wallet_of request agentId))) = ProTier \<and>
           can_queue (fst (checkQuotaAvailable d0 now (wallet_of request agentId))) \<longrightarrow>
           (\<exists>d2. afterProvider d0 now utcOffset requestId prov mdl agentId sessionId request resp
                    = drain (nat (min 5 (getQueueSize d0 (wallet_of request agentId)))) d2 now
                        utcOffset \<and>
                 queue d2 = queue d0 \<and>
                 windows d2 = windows (update_token_counts d0 now (wallet_of request agentId) prov
                                         mdl (tokensUsed resp) all_windows))"
    using afterProvider_drain [where request = request and agentId = agentId and d = d0
        and now = now and utcOffset = utcOffset and requestId = requestId and prov = prov
        and mdl = mdl and sessionId = sessionId and resp = resp]
    by blast
  note pb = processQueue_bound [of d now utcOffset agent]
  note pd = processQueue_drain [of d now utcOffset agent]
  from fresh have f: "status q = pending" "q \<in> set (queue d)"
    "now - parse_local utcOffset (queued_at q) \<le> maxQueueAge" by simp_all
  from first have r: "retry_count q < max_retries q" by simp
  from A B have AB: "(\<not> exceeded chk \<longrightarrow>
          (\<exists>d4. drain (Suc n) d now utcOffset
                   = (Processed q # fst (drain n d4 now utcOffset), snd (drain n d4 now utcOffset)) \<and>
             (\<forall>r\<in>set (queue d4). queue_id r = queue_id q \<longrightarrow>
                r = q\<lparr>status := completed, qe_error := None, processed_at := Some now\<rparr>) \<and>
             (\<forall>wt. total_requests d4 ?a ?p ?m wt = total_requests d ?a ?p ?m wt + 1) \<and>
             windows_ok d4 now \<and> distinct (map queue_id (queue d4))))"
     "(exceeded chk \<longrightarrow>
          (\<exists>d3. drain (Suc n) d now utcOffset = ([Requeued q], d3) \<and>
             (\<forall>r\<in>set (queue d3). queue_id r = queue_id q \<longrightarrow> r = q\<lparr>processed_at := Some now\<rparr>) \<and>
             (\<forall>wt. total_requests d3 ?a ?p ?m wt = total_requests d ?a ?p ?m wt)))"
    by blast+
  note ab = afterProvider_bound [of d0 now utcOffset requestId prov mdl agentId sessionId
      request resp]
  from f r best AB pb pd ab P show ?thesis
    unfolding c by (intro conjI) blast+
qed

text \<open>The hypotheses hold for the two-tenant store, where the post-call of the pro
  tenant \<open>0xP\<close> runs the drain and the entry of tenant \<open>0xB\<close> is dequeued and processed.\<close>

theorem drain_iteration_witness:
  "windows_ok two_tenant_db 1000 \<and>
   distinct (map queue_id (queue two_tenant_db)) \<and>
   fst (dequeue two_tenant_db 1000 0 None) = Some (queued_entry ''q-B'' ''0xB'' 9 1000) \<and>
   status (queued_entry ''q-B'' ''0xB'' 9 1000) = pending \<and>
   retry_count (queued_entry ''q-B'' ''0xB'' 9 1000) < max_retries (queued_entry ''q-B'' ''0xB'' 9 1000) \<and>
   (\<exists>d4. drain (Suc 0) two_tenant_db 1000 0
           = (Processed (queued_entry ''q-B'' ''0xB'' 9 1000) # fst (drain 0 d4 1000 0),
              snd (drain 0 d4 1000 0))) \<and>
   length (fst (processQueue two_tenant_db 1000 0 ''0xP'')) \<le> 5 \<and>
   tier (fst (checkQuotaAvailable two_tenant_db 1000 ''0xP'')) = ProTier \<and>
   can_queue (fst (checkQuotaAvailable two_tenant_db 1000 ''0xP'')) \<and>
   (\<exists>d2. afterProvider two_tenant_db 1000 0 ''r1'' ''anthropic'' None ''0xP'' ''s1''
            admitted_request usage_response
          = drain (nat (min 5 (getQueueSize two_tenant_db ''0xP''))) d2 1000 0 \<and>
        queue d2 = queue two_tenant_db)"
proof -
  let ?q = "queued_entry ''q-B'' ''0xB'' 9 1000"
  have h1: "windows_ok two_tenant_db 1000"
    by (simp add: windows_ok_def two_tenant_db_def empty_db_def)
  have h2: "distinct (map queue_id (queue two_tenant_db))"
    by (simp add: two_tenant_db_def empty_db_def queued_entry_def)
  have f: "fst (dequeue two_tenant_db 1000 0 None) = Some ?q"
    by code_simp
  then have h3: "dequeue two_tenant_db 1000 0 None
      = (Some ?q, snd (dequeue two_tenant_db 1000 0 None))"
    by (simp add: prod_eq_iff)
  have ne: "\<not> exceeded (fst (wouldExceedLimit (snd (dequeue two_tenant_db 1000 0 None)) 1000
      (qe_agent_wallet ?q) (qe_provider ?q) (qe_model ?q) per_minute ProTier))"
    by code_simp
  have w: "wallet_of admitted_request ''0xP'' = ''0xP''"
    by (simp add: wallet_of_def admitted_request_def plain_request_def)
  have dc: "rate_limit_decision admitted_request
      = Some \<lparr>d_request_id = ''r1'', d_agent_wallet = ''0xP'', d_provider = ''anthropic'',
              d_model = None, d_timestamp = 500, d_allowed = True\<rparr>"
    by (simp add: admitted_request_def plain_request_def)
  have pro: "tier (fst (checkQuotaAvailable two_tenant_db 1000 ''0xP'')) = ProTier"
    "can_queue (fst (checkQuotaAvailable two_tenant_db 1000 ''0xP''))"
    by code_simp+
  note t = drain_iteration [OF h1 h2 h3, where n = 0 and agent = "''0xP''"
      and request = admitted_request and agentId = "''0xP''" and ?d0.0 = two_tenant_db
      and requestId = "''r1''" and prov = "''anthropic''" and mdl = None and sessionId = "''s1''"
      and resp = usage_response]
  from t have 1: "status ?q = pending" "retry_count ?q < max_retries ?q" by blast+
  from t ne have 2: "\<exists>d4. drain (Suc 0) two_tenant_db 1000 0
           = (Processed ?q # fst (drain 0 d4 1000 0), snd (drain 0 d4 1000 0))"
    by blast
  from t have 3: "length (fst (processQueue two_tenant_db 1000 0 ''0xP'')) \<le> 5" by blast
  from t have "\<forall>dec. rate_limit_decision admitted_request = Some dec \<and> d_allowed dec \<and>
           tier (fst (checkQuotaAvailable two_tenant_db 1000 (wallet_of admitted_request ''0xP''))) = ProTier \<and>
           can_queue (fst (checkQuotaAvailable two_tenant_db 1000 (wallet_of admitted_request ''0xP''))) \<longrightarrow>
           (\<exists>d2. afterProvider two_tenant_db 1000 0 ''r1'' ''anthropic'' None ''0xP'' ''s1''
                     admitted_request usage_response
                    = drain (nat (min 5 (getQueueSize two_tenant_db (wallet_of admitted_request ''0xP''))))
                        d2 1000 0 \<and>
                 queue d2 = queue two_tenant_db \<and>
                 windows d2 = windows (update_token_counts two_tenant_db 1000
                                         (wallet_of admitted_request ''0xP'') ''anthropic''
                                         None (tokensUsed usage_response) all_windows))"
    by blast
  with dc pro have 4: "\<exists>d2. afterProvider two_tenant_db 1000 0 ''r1'' ''anthropic'' None ''0xP'' ''s1''
            admitted_request usage_response
          = drain (nat (min 5 (getQueueSize two_tenant_db ''0xP''))) d2 1000 0 \<and>
        queue d2 = queue two_tenant_db"
    unfolding w by auto
  from h1 h2 f 1 2 3 4 pro show ?thesis by (intro conjI)
qed

text \<open>
  Claim C4 as stated fails: the drain of a post-call does not restrict itself to the
  calling tenant (the source calls \<open>dequeue()\<close> without a wallet). In the post-call of
  tenant \<open>0xP\<close> the entry that is dequeued, completed and counted belongs to tenant
  \<open>0xB\<close>, and the entry of \<open>0xP\<close> stays pending.
\<close>

theorem drain_takes_other_tenant_counterexample:
  "(case afterProvider two_tenant_db 1000 0 ''r1'' ''anthropic'' None ''0xP'' ''s1''
           admitted_request usage_response
    of (steps, d') \<Rightarrow>
      steps = [Processed (queued_entry ''q-B'' ''0xB'' 9 1000)] \<and>
      map (\<lambda>q. (queue_id q, qe_agent_wallet q, status q)) (queue d')
        = [(''q-P'', ''0xP'', pending), (''q-B'', ''0xB'', completed)])"
  by code_simp

section \<open>Counting of an admitted request\<close>

lemma processQueue_tokens:
  assumes "windows_ok d now"
  shows "total_tokens (snd (processQueue d now utcOffset agent)) a p m wt = total_tokens d a p m wt"
  using drain_totals [OF assms, where n = "nat (min 5 (getQueueSize d agent))" and a = a
      and p = p and m = m and wt = wt and utcOffset = utcOffset]
  by (simp add: processQueue_def Let_def)

text \<open>An admitting pre-call in a well-formed store raises the request total of each
  horizon of its key by exactly one and adds no tokens.\<close>

lemma beforeProvider_admitted_totals:
  assumes ok: "windows_ok d now"
    and adm: "fst (beforeProvider d now requestId prov mdl agentId sessionId requestData uuid)
              = Admitted dec"
  shows "total_requests (snd (beforeProvider d now requestId prov mdl agentId sessionId requestData uuid))
           (wallet_of requestData agentId) prov mdl wt
         = total_requests d (wallet_of requestData agentId) prov mdl wt + 1"
    "total_tokens (snd (beforeProvider d now requestId prov mdl agentId sessionId requestData uuid))
           (wallet_of requestData agentId) prov mdl wt
         = total_tokens d (wallet_of requestData agentId) prov mdl wt"
proof -
  let ?a = "wallet_of requestData agentId"
  obtain q d0 where cq: "checkQuotaAvailable d now ?a = (q, d0)"
    by (cases "checkQuotaAvailable d now ?a")
  have d0: "d0 = snd (checkQuotaAvailable d now ?a)" using cq by simp
  have w0: "windows d0 = windows d" unfolding d0 by simp
  note s0 = same_windows [OF w0]
  have ok0: "windows_ok d0 now" using ok s0(1) by simp
  obtain w d2 where cw: "check_windows d0 now ?a prov mdl (tier q) all_windows = (w, d2)"
    by (cases "check_windows d0 now ?a prov mdl (tier q) all_windows")
  have d2: "d2 = snd (check_windows d0 now ?a prov mdl (tier q) all_windows)" using cw by simp
  note e2 = check_windows_effect [OF ok0, of ?a prov mdl "tier q" all_windows ?a prov mdl wt, folded d2]
  let ?d3 = "recordEvent d2 now (event_data ?a prov mdl ''allowed'' None requestId False)"
  have "windows ?d3 = windows d2" by simp
  note s3 = same_windows [OF this]
  have ok3: "windows_ok ?d3 now" using e2 s3(1) by simp
  note e4 = increment_windows_effect [OF ok3 distinct_all_windows, of ?a prov mdl ?a prov mdl wt]
  obtain d4 where inc: "increment_windows ?d3 now ?a prov mdl all_windows = (Inr (), d4)"
    using e4 by (cases "increment_windows ?d3 now ?a prov mdl all_windows") simp
  have d4: "d4 = snd (increment_windows ?d3 now ?a prov mdl all_windows)" using inc by simp
  have av: "available q" using available_checkQuota [of d now ?a] cq by simp
  have wn: "w = None"
  proof (rule ccontr)
    assume "w \<noteq> None"
    then obtain wt' r where "w = Some (wt', r)" by (cases w) auto
    with adm cq cw av show False
      by (auto simp: beforeProvider_def Let_def split: if_splits prod.splits sum.splits)
  qed
  have res: "snd (beforeProvider d now requestId prov mdl agentId sessionId requestData uuid) = d4"
    using cq cw wn inc av by (simp add: beforeProvider_def Let_def)
  show "total_requests (snd (beforeProvider d now requestId prov mdl agentId sessionId requestData uuid))
           ?a prov mdl wt = total_requests d ?a prov mdl wt + 1"
    unfolding res d4 using e4 in_all_windows [of wt] e2 by (simp add: s3 s0)
  show "total_tokens (snd (beforeProvider d now requestId prov mdl agentId sessionId requestData uuid))
           ?a prov mdl wt = total_tokens d ?a prov mdl wt"
    unfolding res d4 using e4 e2 by (simp add: s3 s0)
qed

text \<open>The whole post-call in a well-formed store: request totals change exactly by the
  entries that the drain processes, and for a request with an allowed decision each
  horizon of its key receives the tokens of the response once.\<close>

lemma afterProvider_totals:
  assumes ok: "windows_ok d now"
  shows "total_requests (snd (afterProvider d now utcOffset requestId prov mdl agentId sessionId request resp))
           a p m wt
         = total_requests d a p m wt
           + count_processed (fst (afterProvider d now utcOffset requestId prov mdl agentId sessionId request resp)) a p m"
    "rate_limit_decision request = Some dec \<Longrightarrow> d_allowed dec \<Longrightarrow>
     total_tokens (snd (afterProvider d now utcOffset requestId prov mdl agentId sessionId request resp))
           (wallet_of request agentId) prov mdl wt
         = total_tokens d (wallet_of request agentId) prov mdl wt + tokensUsed resp"
proof -
  let ?a = "wallet_of request agentId"
  let ?d1 = "update_token_counts d now ?a prov mdl (tokensUsed resp) all_windows"
  note e1 = update_token_counts_effect [OF ok distinct_all_windows, of ?a prov mdl "tokensUsed resp"]
  have ok1: "windows_ok ?d1 now" using e1 [of a p m wt] by simp
  obtain q d2 where cq: "checkQuotaAvailable ?d1 now ?a = (q, d2)"
    by (cases "checkQuotaAvailable ?d1 now ?a")
  have d2: "d2 = snd (checkQuotaAvailable ?d1 now ?a)" using cq by simp
  have w2: "windows d2 = windows ?d1" unfolding d2 by simp
  note s2 = same_windows [OF w2]
  have ok2: "windows_ok d2 now" using ok1 s2(1) by simp
  show "total_requests (snd (afterProvider d now utcOffset requestId prov mdl agentId sessionId request resp))
           a p m wt
         = total_requests d a p m wt
           + count_processed (fst (afterProvider d now utcOffset requestId prov mdl agentId sessionId request resp)) a p m"
    using cq processQueue_totals [OF ok2, where agent = "?a" and a = a and p = p and m = m
        and wt = wt and utcOffset = utcOffset] e1 [of a p m wt]
    by (simp add: afterProvider_def Let_def s2 split: option.splits)
  show "total_tokens (snd (afterProvider d now utcOffset requestId prov mdl agentId sessionId request resp))
           ?a prov mdl wt = total_tokens d ?a prov mdl wt + tokensUsed resp"
    if "rate_limit_decision request = Some dec" "d_allowed dec"
    using that cq processQueue_tokens [OF ok2, where agent = "?a" and a = "?a" and p = prov
        and m = mdl and wt = wt and utcOffset = utcOffset] e1 [of ?a prov mdl wt]
      in_all_windows [of wt]
    by (simp add: afterProvider_def Let_def s2)
qed


lemma admitted_decision:
  assumes "fst (beforeProvider d now requestId prov mdl agentId sessionId requestData uuid)
           = Admitted dec"
  shows "d_allowed dec"
  using assms
  by (auto simp: beforeProvider_def Let_def split: prod.splits option.splits sum.splits if_splits)

text \<open>
  Claim C7, as amended. For every request that the pre-call admits (store
  well-formed), the pre-call causes exactly one request-count increment per horizon,
  with zero tokens; the token update of the subsequent post-call causes exactly one
  token-count addition per horizon, leaves every request count unchanged and
  touches no field of a stored window other than \<open>token_count\<close> and \<open>last_updated\<close>.
  The queue drain that the post-call of a pro tenant runs after the token update
  adds request increments for exactly the entries it processes, and no tokens.
\<close>

theorem admitted_request_counted_once:
  assumes ok: "windows_ok d now"
    and adm: "fst (beforeProvider d now requestId prov mdl agentId sessionId requestData uuid)
              = Admitted dec"
    and ok': "windows_ok d' now'"
  shows "(\<forall>wt.
        total_requests (snd (beforeProvider d now requestId prov mdl agentId sessionId requestData uuid))
            (wallet_of requestData agentId) prov mdl wt
          = total_requests d (wallet_of requestData agentId) prov mdl wt + 1 \<and>
        total_tokens (snd (beforeProvider d now requestId prov mdl agentId sessionId requestData uuid))
            (wallet_of requestData agentId) prov mdl wt
          = total_tokens d (wallet_of requestData agentId) prov mdl wt)
     \<and> (\<forall>wt.
        total_tokens (update_token_counts d' now' (wallet_of requestData agentId) prov mdl
                        (tokensUsed resp) all_windows) (wallet_of requestData agentId) prov mdl wt
          = total_tokens d' (wallet_of requestData agentId) prov mdl wt + tokensUsed resp)
     \<and> (\<forall>a p m wt.
        total_requests (update_token_counts d' now' (wallet_of requestData agentId) prov mdl
                          (tokensUsed resp) all_windows) a p m wt
          = total_requests d' a p m wt)
     \<and> token_update_only (windows d')
          (windows (update_token_counts d' now' (wallet_of requestData agentId) prov mdl
                      (tokensUsed resp) all_windows))
     \<and> (\<forall>a p m wt.
        total_requests (snd (afterProvider d' now' utcOffset requestId prov mdl agentId sessionId
                               (requestData\<lparr>rate_limit_decision := Some dec\<rparr>) resp)) a p m wt
          = total_requests d' a p m wt
            + count_processed (fst (afterProvider d' now' utcOffset requestId prov mdl agentId sessionId
                                      (requestData\<lparr>rate_limit_decision := Some dec\<rparr>) resp)) a p m)
     \<and> (\<forall>wt.
        total_tokens (snd (afterProvider d' now' utcOffset requestId prov mdl agentId sessionId
                             (requestData\<lparr>rate_limit_decision := Some dec\<rparr>) resp))
            (wallet_of requestData agentId) prov mdl wt
          = total_tokens d' (wallet_of requestData agentId) prov mdl wt + tokensUsed resp)"
proof -
  let ?a = "wallet_of requestData agentId"
  let ?req = "requestData\<lparr>rate_limit_decision := Some dec\<rparr>"
  have w: "wallet_of ?req agentId = ?a" by (simp add: wallet_of_def)
  have dc: "rate_limit_decision ?req = Some dec" by simp
  note al = admitted_decision [OF adm]
  note pre = beforeProvider_admitted_totals [OF ok adm]
  note tk = update_token_counts_effect [OF ok' distinct_all_windows, of ?a prov mdl "tokensUsed resp"]
  note post = afterProvider_totals [OF ok', where requestId = requestId and prov = prov
      and mdl = mdl and agentId = agentId and sessionId = sessionId and request = "?req"
      and resp = resp]
  have 1: "\<forall>wt.
        total_requests (snd (beforeProvider d now requestId prov mdl agentId sessionId requestData uuid))
            ?a prov mdl wt = total_requests d ?a prov mdl wt + 1 \<and>
        total_tokens (snd (beforeProvider d now requestId prov mdl agentId sessionId requestData uuid))
            ?a prov mdl wt = total_tokens d ?a prov mdl wt"
    using pre by simp
  have 2: "\<forall>wt. total_tokens (update_token_counts d' now' ?a prov mdl (tokensUsed resp) all_windows)
            ?a prov mdl wt = total_tokens d' ?a prov mdl wt + tokensUsed resp"
  proof
    fix wt
    show "total_tokens (update_token_counts d' now' ?a prov mdl (tokensUsed resp) all_windows)
            ?a prov mdl wt = total_tokens d' ?a prov mdl wt + tokensUsed resp"
      using tk [of ?a prov mdl wt] in_all_windows [of wt] by simp
  qed
  have 3: "\<forall>a p m wt. total_requests (update_token_counts d' now' ?a prov mdl (tokensUsed resp)
            all_windows) a p m wt = total_requests d' a p m wt"
    using tk by simp
  have 4: "token_update_only (windows d')
          (windows (update_token_counts d' now' ?a prov mdl (tokensUsed resp) all_windows))"
    using tk [of ?a prov mdl per_minute] by simp
  have 5: "\<forall>a p m wt.
        total_requests (snd (afterProvider d' now' utcOffset requestId prov mdl agentId sessionId ?req resp)) a p m wt
          = total_requests d' a p m wt
            + count_processed (fst (afterProvider d' now' utcOffset requestId prov mdl agentId sessionId ?req resp)) a p m"
    using post(1) by simp
  have 6: "\<forall>wt.
        total_tokens (snd (afterProvider d' now' utcOffset requestId prov mdl agentId sessionId ?req resp))
            ?a prov mdl wt = total_tokens d' ?a prov mdl wt + tokensUsed resp"
    using post(2) [OF dc al] unfolding w by simp
  from 1 2 3 4 5 6 show ?thesis by (intro conjI)
qed

text \<open>The hypotheses hold for the first request of tenant \<open>0xA\<close> on an empty store,
  followed by a post-call one second later.\<close>

theorem admitted_request_counted_once_witness:
  "windows_ok empty_db 1000 \<and>
   fst (beforeProvider empty_db 1000 ''r1'' ''anthropic'' None ''0xA'' ''s1'' plain_request ''u1'')
     = Admitted first_decision \<and>
   windows_ok after_first 2000 \<and>
   (\<forall>wt. total_requests after_first (wallet_of plain_request ''0xA'') ''anthropic'' None wt
           = total_requests empty_db (wallet_of plain_request ''0xA'') ''anthropic'' None wt + 1) \<and>
   (\<forall>wt. total_tokens
           (snd (afterProvider after_first 2000 0 ''r1'' ''anthropic'' None ''0xA'' ''s1''
                   (plain_request\<lparr>rate_limit_decision := Some first_decision\<rparr>) usage_response))
           (wallet_of plain_request ''0xA'') ''anthropic'' None wt
         = total_tokens after_first (wallet_of plain_request ''0xA'') ''anthropic'' None wt
           + tokensUsed usage_response)"
proof -
  have h1: "windows_ok empty_db 1000"
    by (simp add: windows_ok_def empty_db_def)
  have h2: "fst (beforeProvider empty_db 1000 ''r1'' ''anthropic'' None ''0xA'' ''s1'' plain_request ''u1'')
     = Admitted first_decision"
    by code_simp
  have h3: "windows_ok after_first 2000"
    by code_simp
  from admitted_request_counted_once [OF h1 h2 h3, of usage_response] h1 h2 h3
  show ?thesis unfolding after_first_def [symmetric] by blast
qed

text \<open>
  Claim C7 as stated fails for the post-call as a whole: the post-call of the pro
  tenant drains the tenant's pending entry and thereby raises the request count of
  the stored minute window from 10 to 11.
\<close>

theorem post_call_increments_counterexample:
  "(case afterProvider draining_db 1000 0 ''r1'' ''anthropic'' None ''0xP'' ''s1''
           admitted_request usage_response
    of (steps, d') \<Rightarrow>
      steps = [Processed (queued_entry ''q-P'' ''0xP'' 5 0)] \<and>
      request_count (windows draining_db ! 0) = 10 \<and>
      request_count (windows d' ! 0) = 11 \<and>
      token_count (windows d' ! 0) = 120)"
  by code_simp

section \<open>The admission decision for unknown providers\<close>

lemma check_decision:
  assumes "limit_requests w = getLimitForWindowType ls wt requests"
    "limit_tokens w = getLimitForWindowType ls wt tokens"
  shows "checkWindowLimitDetailed w = decision_under ls wt (request_count w, token_count w)"
  using assms
  by (simp add: checkWindowLimitDetailed_def decision_under_def Let_def split: option.splits)

lemma select_active_cong:
  "windows d' = windows d \<Longrightarrow> select_active d' a p m wt = select_active d a p m wt"
  by (simp add: select_active_def)

lemma usage_cong:
  "windows d' = windows d \<Longrightarrow> usage d' now a p m wt = usage d now a p m wt"
  by (simp add: usage_def select_active_def)

lemma carries_cong:
  "windows d' = windows d \<Longrightarrow> carries_limits ls a p m d' = carries_limits ls a p m d"
  by (simp add: carries_limits_def)

lemma filter_enumerate_update:
  "j < length xs \<Longrightarrow> \<not> P (n + j, xs ! j) \<Longrightarrow> \<not> P (n + j, y) \<Longrightarrow>
     filter P (enumerate n (xs[j := y])) = filter P (enumerate n xs)"
proof (induction xs arbitrary: n j)
  case Nil
  then show ?case by simp
next
  case (Cons x xs)
  show ?case
  proof (cases j)
    case 0
    with Cons.prems show ?thesis by simp
  next
    case (Suc k)
    with Cons.prems Cons.IH [of k "Suc n"] show ?thesis by simp
  qed
qed

text \<open>Obtaining the current window of one horizon does not change which window is
  current for another horizon of the key.\<close>

lemma select_active_other:
  assumes sh: "kept d now a p m wt i w (windows d') \<or> created d now a p m wt i w (windows d')
             \<or> rotated d now a p m wt i w (windows d')"
    and ne: "wt' \<noteq> wt"
  shows "select_active d' a p m wt' = select_active d a p m wt'"
  using sh
proof (elim disjE)
  assume "kept d now a p m wt i w (windows d')"
  then show ?thesis by (simp add: kept_def select_active_def)
next
  assume "created d now a p m wt i w (windows d')"
  then have "windows d' = windows d @ [w]" "w_window_type w = wt"
    by (simp_all add: created_def fresh_row_def same_key_def)
  with ne show ?thesis
    by (simp add: select_active_def enumerate_append_eq window_matches_def)
next
  assume "rotated d now a p m wt i w (windows d')"
  then obtain j old where r: "select_active d a p m wt = Some (j, old)"
      "fresh_row now a p m wt w" "windows d' = (windows d)[j := old\<lparr>is_active := False\<rparr>] @ [w]"
    by (auto simp: rotated_def)
  note s = select_active_Some [OF r(1)]
  let ?P = "\<lambda>(i, w). window_matches a p m wt' w"
  have "filter ?P (enumerate 0 ((windows d)[j := old\<lparr>is_active := False\<rparr>]))
        = filter ?P (enumerate 0 (windows d))"
    using s(1,2,3) ne by (intro filter_enumerate_update) (simp_all add: window_matches_def)
  moreover have "w_window_type w = wt" using r(2) by (simp add: fresh_row_def same_key_def)
  ultimately show ?thesis using r(3) ne
    by (simp add: select_active_def enumerate_append_eq window_matches_def)
qed

text \<open>When a window has to be created, the row that becomes current is the one that
  \<open>createWindow\<close> returns.\<close>

lemma ensure_current_new:
  assumes ok: "windows_ok d now"
  shows "select_active d a p m wt = None \<Longrightarrow>
           fst (ensure_current d now a p m wt) = fst (createWindow d now a p m wt)"
    and "select_active d a p m wt = Some (j, old) \<Longrightarrow> now > window_end old \<Longrightarrow>
           fst (ensure_current d now a p m wt)
             = fst (createWindow (update_window j (\<lambda>w. w\<lparr>is_active := False\<rparr>) d) now a p m wt)"
proof -
  show "fst (ensure_current d now a p m wt) = fst (createWindow d now a p m wt)"
    if none: "select_active d a p m wt = None"
  proof -
    have g: "getCurrentWindow d now a p m wt = createWindow d now a p m wt"
      using none by (simp add: getCurrentWindow_def)
    from getCurrentWindow_ok [OF ok, of a p m wt] none obtain i w where
      r: "fst (getCurrentWindow d now a p m wt) = Inr (i, w)" and
      c: "created d now a p m wt i w (windows (snd (getCurrentWindow d now a p m wt)))"
      by auto
    from c have "window_end w = now + windowDurations wt" by (simp add: created_def fresh_row_def)
    with windowDurations_pos [of wt] have ne: "\<not> now > window_end w" by simp
    obtain d1 where gc: "getCurrentWindow d now a p m wt = (Inr (i, w), d1)"
      using r by (cases "getCurrentWindow d now a p m wt") simp
    have e: "ensure_current d now a p m wt = (Inr (i, w), d1)"
      using gc ne by (simp add: ensure_current_def)
    have "fst (createWindow d now a p m wt) = Inr (i, w)"
      using gc unfolding g by simp
    with e show ?thesis by simp
  qed
  show "fst (ensure_current d now a p m wt)
          = fst (createWindow (update_window j (\<lambda>w. w\<lparr>is_active := False\<rparr>) d) now a p m wt)"
    if sel: "select_active d a p m wt = Some (j, old)" and stale: "now > window_end old"
  proof -
    note s = select_active_Some [OF sel]
    have g: "getCurrentWindow d now a p m wt = (Inr (j, old), d)"
      using sel by (simp add: getCurrentWindow_def)
    from rotateWindow_ok [OF ok sel stale] obtain f where
      f: "fst (rotateWindow d now (j, old)) = Inr (length (windows d), f)"
         "select_active (snd (rotateWindow d now (j, old))) a p m wt = Some (length (windows d), f)"
      by blast
    obtain d2 where rot: "rotateWindow d now (j, old) = (Inr (length (windows d), f), d2)"
      using f(1) by (cases "rotateWindow d now (j, old)") simp
    have g2: "getCurrentWindow d2 now a p m wt = (Inr (length (windows d), f), d2)"
      using f(2) rot by (simp add: getCurrentWindow_def)
    have e: "fst (ensure_current d now a p m wt) = Inr (length (windows d), f)"
      using g stale rot g2 by (simp add: ensure_current_def)
    have "rotateWindow d now (j, old)
          = createWindow (update_window j (\<lambda>w. w\<lparr>is_active := False\<rparr>) d) now a p m wt"
      using s(3) by (simp add: rotateWindow_def window_matches_def)
    with e f(1) show ?thesis by simp
  qed
qed

text \<open>The current window of a key of an unknown provider: it carries the anthropic
  free limits, and its counts are the usage of the key.\<close>

lemma ensure_current_unknown:
  assumes unknown: "prov \<noteq> ''anthropic''" "prov \<noteq> ''openai''" "prov \<noteq> ''google''"
    and noconf: "\<forall>c\<in>set (configs d). c_provider c \<noteq> prov"
    and ok: "windows_ok d now"
    and lim: "carries_limits anthropic_free a prov m d"
  shows "\<exists>i w. fst (ensure_current d now a prov m wt) = Inr (i, w) \<and>
           limit_requests w = getLimitForWindowType anthropic_free wt requests \<and>
           limit_tokens w = getLimitForWindowType anthropic_free wt tokens \<and>
           (request_count w, token_count w) = usage d now a prov m wt \<and>
           carries_limits anthropic_free a prov m (snd (ensure_current d now a prov m wt)) \<and>
           windows_ok (snd (ensure_current d now a prov m wt)) now \<and>
           (\<forall>wt'. wt' \<noteq> wt \<longrightarrow>
              select_active (snd (ensure_current d now a prov m wt)) a prov m wt'
                = select_active d a prov m wt')"
proof -
  let ?d' = "snd (ensure_current d now a prov m wt)"
  from ensure_current_ok [OF ok, of a prov m wt] obtain i w where
    r: "fst (ensure_current d now a prov m wt) = Inr (i, w)" and
    sh: "kept d now a prov m wt i w (windows ?d') \<or> created d now a prov m wt i w (windows ?d')
         \<or> rotated d now a prov m wt i w (windows ?d')"
    by blast
  have ok': "windows_ok ?d' now" by (rule shape_ok [OF ok sh])
  have other: "\<forall>wt'. wt' \<noteq> wt \<longrightarrow> select_active ?d' a prov m wt' = select_active d a prov m wt'"
    using select_active_other [OF sh] by blast
  have new_limits: "limit_requests w = getLimitForWindowType anthropic_free wt requests \<and>
       limit_tokens w = getLimitForWindowType anthropic_free wt tokens"
    if c: "fst (createWindow d0 now a prov m wt) = Inr (i, w)" and c0: "configs d0 = configs d" for d0
  proof -
    have "\<forall>c\<in>set (configs d0). c_provider c \<noteq> prov" using noconf c0 by simp
    from unknown_provider_defaults [OF unknown this, of now a m] createWindow_limits [OF c]
    show ?thesis by simp
  qed
  from sh have "limit_requests w = getLimitForWindowType anthropic_free wt requests \<and>
           limit_tokens w = getLimitForWindowType anthropic_free wt tokens \<and>
           (request_count w, token_count w) = usage d now a prov m wt \<and>
           carries_limits anthropic_free a prov m ?d'"
  proof (elim disjE)
    assume k: "kept d now a prov m wt i w (windows ?d')"
    then have sel: "select_active d a prov m wt = Some (i, w)" and ne: "now \<le> window_end w"
      and same: "windows ?d' = windows d"
      by (simp_all add: kept_def)
    note s = select_active_Some [OF sel]
    have "w \<in> set (windows d)" using s(1,2) by (auto simp: in_set_conv_nth)
    with lim s(3) have "limit_requests w = getLimitForWindowType anthropic_free wt requests \<and>
           limit_tokens w = getLimitForWindowType anthropic_free wt tokens"
      by (auto simp: carries_limits_def window_matches_def)
    moreover have "(request_count w, token_count w) = usage d now a prov m wt"
      using sel ne by (simp add: usage_def)
    moreover have "carries_limits anthropic_free a prov m ?d'"
      using lim carries_cong [OF same] by simp
    ultimately show ?thesis by simp
  next
    assume c: "created d now a prov m wt i w (windows ?d')"
    then have none: "select_active d a prov m wt = None" and fr: "fresh_row now a prov m wt w"
      and ws: "windows ?d' = windows d @ [w]"
      by (simp_all add: created_def)
    have "fst (createWindow d now a prov m wt) = Inr (i, w)"
      using ensure_current_new(1) [OF ok none] r by simp
    from new_limits [OF this refl] have l: "limit_requests w = getLimitForWindowType anthropic_free wt requests"
      "limit_tokens w = getLimitForWindowType anthropic_free wt tokens" by simp_all
    have "(request_count w, token_count w) = usage d now a prov m wt"
      using none fr by (simp add: usage_def fresh_row_def)
    moreover have "carries_limits anthropic_free a prov m ?d'"
      using lim l fr ws by (auto simp: carries_limits_def fresh_row_def same_key_def)
    ultimately show ?thesis using l by simp
  next
    assume "rotated d now a prov m wt i w (windows ?d')"
    then obtain j old where sel: "select_active d a prov m wt = Some (j, old)"
      and stale: "now > window_end old" and fr: "fresh_row now a prov m wt w"
      and ws: "windows ?d' = (windows d)[j := old\<lparr>is_active := False\<rparr>] @ [w]"
      by (auto simp: rotated_def)
    have "fst (createWindow (update_window j (\<lambda>w. w\<lparr>is_active := False\<rparr>) d) now a prov m wt)
          = Inr (i, w)"
      using ensure_current_new(2) [OF ok sel stale] r by simp
    from new_limits [OF this] have l: "limit_requests w = getLimitForWindowType anthropic_free wt requests"
      "limit_tokens w = getLimitForWindowType anthropic_free wt tokens" by simp_all
    have "(request_count w, token_count w) = usage d now a prov m wt"
      using sel stale fr by (simp add: usage_def fresh_row_def)
    moreover have "carries_limits anthropic_free a prov m ?d'"
      unfolding carries_limits_def ws
    proof (intro ballI impI)
      fix x assume x: "x \<in> set ((windows d)[j := old\<lparr>is_active := False\<rparr>] @ [w])"
        and k: "w_agent_wallet x = a \<and> w_provider x = prov \<and> w_model x = m \<and> is_active x"
      from x have "x = w \<or> x = old\<lparr>is_active := False\<rparr> \<or> x \<in> set (windows d)"
        using set_update_subset_insert [of "windows d" j "old\<lparr>is_active := False\<rparr>"] by auto
      with k have "x = w \<or> x \<in> set (windows d)" by auto
      then show "limit_requests x = getLimitForWindowType anthropic_free (w_window_type x) requests \<and>
           limit_tokens x = getLimitForWindowType anthropic_free (w_window_type x) tokens"
        using l fr lim k by (auto simp: carries_limits_def fresh_row_def same_key_def)
    qed
    ultimately show ?thesis using l by simp
  qed
  with r ok' other show ?thesis by blast
qed


lemma wouldExceedLimit_unknown:
  assumes unknown: "prov \<noteq> ''anthropic''" "prov \<noteq> ''openai''" "prov \<noteq> ''google''"
    and noconf: "\<forall>c\<in>set (configs d). c_provider c \<noteq> prov"
    and ok: "windows_ok d now"
    and lim: "carries_limits anthropic_free a prov m d"
  shows "fst (wouldExceedLimit d now a prov m wt t)
           = decision_under anthropic_free wt (usage d now a prov m wt)"
    "carries_limits anthropic_free a prov m (snd (wouldExceedLimit d now a prov m wt t))"
    "wt' \<noteq> wt \<Longrightarrow> usage (snd (wouldExceedLimit d now a prov m wt t)) now a prov m wt'
                    = usage d now a prov m wt'"
proof -
  from ensure_current_unknown [OF unknown noconf ok lim, of wt] obtain i w where
    r: "fst (ensure_current d now a prov m wt) = Inr (i, w)" and
    l: "limit_requests w = getLimitForWindowType anthropic_free wt requests"
       "limit_tokens w = getLimitForWindowType anthropic_free wt tokens" and
    u: "(request_count w, token_count w) = usage d now a prov m wt" and
    c: "carries_limits anthropic_free a prov m (snd (ensure_current d now a prov m wt))" and
    o: "\<forall>wt'. wt' \<noteq> wt \<longrightarrow>
              select_active (snd (ensure_current d now a prov m wt)) a prov m wt'
                = select_active d a prov m wt'"
    by blast
  obtain d' where e: "ensure_current d now a prov m wt = (Inr (i, w), d')"
    using r by (cases "ensure_current d now a prov m wt") simp
  have we: "wouldExceedLimit d now a prov m wt t = (checkWindowLimitDetailed w, d')"
    using e by (simp add: wouldExceedLimit_ensure)
  show "fst (wouldExceedLimit d now a prov m wt t)
           = decision_under anthropic_free wt (usage d now a prov m wt)"
    using we check_decision [OF l] u by simp
  show "carries_limits anthropic_free a prov m (snd (wouldExceedLimit d now a prov m wt t))"
    using we c e by simp
  show "usage (snd (wouldExceedLimit d now a prov m wt t)) now a prov m wt'
          = usage d now a prov m wt'" if "wt' \<noteq> wt"
    using we o e that by (simp add: usage_def)
qed

text \<open>The loop over the horizons for an unknown provider: it finds no exceeded
  horizon exactly when the usage of every horizon is below the anthropic free
  limits, and the horizon it reports is judged under these limits.\<close>

lemma check_windows_unknown:
  assumes unknown: "prov \<noteq> ''anthropic''" "prov \<noteq> ''openai''" "prov \<noteq> ''google''"
    and noconf: "\<forall>c\<in>set (configs d). c_provider c \<noteq> prov"
    and ok: "windows_ok d now"
    and lim: "carries_limits anthropic_free a prov m d"
    and dist: "distinct wts"
  shows "(fst (check_windows d now a prov m t wts) = None \<longleftrightarrow>
            (\<forall>wt\<in>set wts. \<not> exceeded (decision_under anthropic_free wt (usage d now a prov m wt)))) \<and>
         (\<forall>wt r. fst (check_windows d now a prov m t wts) = Some (wt, r) \<longrightarrow>
            wt \<in> set wts \<and> exceeded r \<and>
            r = decision_under anthropic_free wt (usage d now a prov m wt)) \<and>
         carries_limits anthropic_free a prov m (snd (check_windows d now a prov m t wts))"
  using noconf ok lim dist
proof (induction wts arbitrary: d)
  case Nil
  then show ?case by simp
next
  case (Cons wt wts)
  obtain chk d1 where we: "wouldExceedLimit d now a prov m wt t = (chk, d1)"
    by (cases "wouldExceedLimit d now a prov m wt t")
  have d1: "d1 = snd (wouldExceedLimit d now a prov m wt t)" using we by simp
  note w = wouldExceedLimit_unknown [OF unknown Cons.prems(1-3), where wt = wt and t = t,
      folded d1]
  have chk: "chk = decision_under anthropic_free wt (usage d now a prov m wt)"
    using w(1) we by simp
  show ?case
  proof (cases "exceeded chk")
    case True
    with we chk w(2) show ?thesis by simp
  next
    case False
    have nc1: "\<forall>c\<in>set (configs d1). c_provider c \<noteq> prov"
      unfolding d1 using Cons.prems(1) by simp
    have ok1: "windows_ok d1 now"
      unfolding d1 by (rule wouldExceedLimit_effect(1) [OF Cons.prems(2)])
    have dist: "distinct wts" "wt \<notin> set wts" using Cons.prems(4) by simp_all
    have us: "usage d1 now a prov m wt' = usage d now a prov m wt'" if "wt' \<in> set wts" for wt'
      using w(3) [of wt'] that dist(2) by auto
    note ih = Cons.IH [OF nc1 ok1 w(2) dist(1)]
    have res: "check_windows d now a prov m t (wt # wts) = check_windows d1 now a prov m t wts"
      using we False by simp
    have 1: "(fst (check_windows d1 now a prov m t wts) = None) \<longleftrightarrow>
        (\<forall>wt\<in>set (wt # wts). \<not> exceeded (decision_under anthropic_free wt (usage d now a prov m wt)))"
      using ih us False chk by auto
    have 2: "\<forall>wt' r. fst (check_windows d1 now a prov m t wts) = Some (wt', r) \<longrightarrow>
            wt' \<in> set (wt # wts) \<and> exceeded r \<and>
            r = decision_under anthropic_free wt' (usage d now a prov m wt')"
      using ih us by auto
    from 1 2 ih show ?thesis unfolding res by blast
  qed
qed

lemma carries_update:
  assumes "carries_limits ls a p m d"
    and "\<And>w. limit_requests (f w) = limit_requests w \<and> limit_tokens (f w) = limit_tokens w \<and>
             w_agent_wallet (f w) = w_agent_wallet w \<and> w_provider (f w) = w_provider w \<and>
             w_model (f w) = w_model w \<and> w_window_type (f w) = w_window_type w \<and>
             is_active (f w) = is_active w"
  shows "carries_limits ls a p m (update_window i f d)"
proof (cases "i < length (windows d)")
  case False
  with assms(1) show ?thesis by (simp add: update_window_def)
next
  case True
  have "windows d ! i \<in> set (windows d)" using True by simp
  show ?thesis
    unfolding carries_limits_def
  proof (intro ballI impI)
    fix x assume x: "x \<in> set (windows (update_window i f d))"
      and k: "w_agent_wallet x = a \<and> w_provider x = p \<and> w_model x = m \<and> is_active x"
    from x True have "x = f (windows d ! i) \<or> x \<in> set (windows d)"
      using set_update_subset_insert [of "windows d" i "f (windows d ! i)"]
      by (auto simp: update_window_def)
    then show "limit_requests x = getLimitForWindowType ls (w_window_type x) requests \<and>
           limit_tokens x = getLimitForWindowType ls (w_window_type x) tokens"
    proof
      assume "x \<in> set (windows d)"
      with assms(1) k show ?thesis by (auto simp: carries_limits_def)
    next
      assume xf: "x = f (windows d ! i)"
      from k assms(2) [of "windows d ! i"] xf
      have "w_agent_wallet (windows d ! i) = a \<and> w_provider (windows d ! i) = p \<and>
            w_model (windows d ! i) = m \<and> is_active (windows d ! i)" by simp
      with assms(1) \<open>windows d ! i \<in> set (windows d)\<close>
      have "limit_requests (windows d ! i)
              = getLimitForWindowType ls (w_window_type (windows d ! i)) requests \<and>
            limit_tokens (windows d ! i)
              = getLimitForWindowType ls (w_window_type (windows d ! i)) tokens"
        unfolding carries_limits_def by blast
      with assms(2) [of "windows d ! i"] xf show ?thesis by simp
    qed
  qed
qed

lemma incrementWindow_carries:
  assumes unknown: "prov \<noteq> ''anthropic''" "prov \<noteq> ''openai''" "prov \<noteq> ''google''"
    and noconf: "\<forall>c\<in>set (configs d). c_provider c \<noteq> prov"
    and ok: "windows_ok d now"
    and lim: "carries_limits anthropic_free a prov m d"
  shows "carries_limits anthropic_free a prov m (snd (incrementWindow d now a prov m wt toks))"
proof -
  from ensure_current_unknown [OF unknown noconf ok lim, of wt] obtain i w where
    r: "fst (ensure_current d now a prov m wt) = Inr (i, w)" and
    c: "carries_limits anthropic_free a prov m (snd (ensure_current d now a prov m wt))"
    by blast
  obtain d' where e: "ensure_current d now a prov m wt = (Inr (i, w), d')"
    using r by (cases "ensure_current d now a prov m wt") simp
  have "snd (incrementWindow d now a prov m wt toks) = updateWindowCounts d' now i toks"
    using e by (simp add: incrementWindow_ensure)
  moreover have "carries_limits anthropic_free a prov m (updateWindowCounts d' now i toks)"
    unfolding updateWindowCounts_def using c e by (intro carries_update) simp_all
  ultimately show ?thesis by simp
qed

lemma increment_windows_carries:
  assumes unknown: "prov \<noteq> ''anthropic''" "prov \<noteq> ''openai''" "prov \<noteq> ''google''"
    and noconf: "\<forall>c\<in>set (configs d). c_provider c \<noteq> prov"
    and ok: "windows_ok d now"
    and lim: "carries_limits anthropic_free a prov m d"
  shows "carries_limits anthropic_free a prov m (snd (increment_windows d now a prov m wts))"
  using noconf ok lim
proof (induction wts arbitrary: d)
  case Nil
  then show ?case by simp
next
  case (Cons wt wts)
  obtain r d1 where inc: "incrementWindow d now a prov m wt 0 = (r, d1)"
    by (cases "incrementWindow d now a prov m wt 0")
  have d1: "d1 = snd (incrementWindow d now a prov m wt 0)" using inc by simp
  have c1: "carries_limits anthropic_free a prov m d1"
    unfolding d1 by (rule incrementWindow_carries [OF unknown Cons.prems])
  have nc1: "\<forall>c\<in>set (configs d1). c_provider c \<noteq> prov"
    unfolding d1 using Cons.prems(1) by simp
  have ok1: "windows_ok d1 now"
    unfolding d1 by (rule incrementWindow_effect(2) [OF Cons.prems(2)])
  show ?case
  proof (cases r)
    case (Inl e)
    with inc c1 show ?thesis by simp
  next
    case (Inr u)
    with inc Cons.IH [OF nc1 ok1 c1] show ?thesis by simp
  qed
qed

lemma decision_under_anthropic_free:
  "decision_under anthropic_free per_minute u
     = \<lparr>exceeded = (50 \<le> fst u \<or> 40000 \<le> snd u), current = fst u, limit = 50,
        percentUsed = of_int (fst u) / 50 * 100\<rparr>"
  "exceeded (decision_under anthropic_free per_hour u) = False"
  "exceeded (decision_under anthropic_free per_day u) = (1000 \<le> fst u \<or> 300000 \<le> snd u)"
  by (simp_all add: decision_under_def checkWindowLimitDetailed_def getLimitForWindowType_def
      anthropic_free_def mk_limits_def or_null_def truthy_def Let_def)

text \<open>The pre-call keeps the windows of the key under the anthropic free limits.\<close>

lemma beforeProvider_carries:
  assumes unknown: "prov \<noteq> ''anthropic''" "prov \<noteq> ''openai''" "prov \<noteq> ''google''"
    and noconf: "\<forall>c\<in>set (configs d). c_provider c \<noteq> prov"
    and ok: "windows_ok d now"
    and lim: "carries_limits anthropic_free (wallet_of requestData agentId) prov mdl d"
  shows "carries_limits anthropic_free (wallet_of requestData agentId) prov mdl
           (snd (beforeProvider d now requestId prov mdl agentId sessionId requestData uuid))"
proof -
  let ?a = "wallet_of requestData agentId"
  let ?pri = "Some (case rd_priority requestData of None \<Rightarrow> 5 | Some p \<Rightarrow> if p = 0 then 5 else p)"
  obtain q d0 where cq: "checkQuotaAvailable d now ?a = (q, d0)"
    by (cases "checkQuotaAvailable d now ?a")
  have d0eq: "d0 = snd (checkQuotaAvailable d now ?a)" using cq by simp
  have d0: "windows d0 = windows d" "configs d0 = configs d"
    unfolding d0eq by simp_all
  have ok0: "windows_ok d0 now" using ok d0 by (simp add: windows_ok_def)
  have nc0: "\<forall>c\<in>set (configs d0). c_provider c \<noteq> prov" using noconf d0 by simp
  have lim0: "carries_limits anthropic_free ?a prov mdl d0"
    using lim carries_cong [OF d0(1)] by simp
  obtain w d2 where cw: "check_windows d0 now ?a prov mdl (tier q) all_windows = (w, d2)"
    by (cases "check_windows d0 now ?a prov mdl (tier q) all_windows")
  have d2: "d2 = snd (check_windows d0 now ?a prov mdl (tier q) all_windows)" using cw by simp
  have c2: "carries_limits anthropic_free ?a prov mdl d2"
    unfolding d2
    using check_windows_unknown [OF unknown nc0 ok0 lim0 distinct_all_windows, of "tier q"]
    by blast
  have ok2: "windows_ok d2 now"
    unfolding d2 using check_windows_effect [OF ok0, of ?a prov mdl "tier q" all_windows] by blast
  have nc2: "\<forall>c\<in>set (configs d2). c_provider c \<noteq> prov"
    unfolding d2 using nc0 by simp
  have av: "available q" using available_checkQuota [of d now ?a] cq by simp
  show ?thesis
  proof (cases w)
    case None
    let ?d3 = "recordEvent d2 now (event_data ?a prov mdl ''allowed'' None requestId False)"
    have w3: "windows ?d3 = windows d2" by simp
    have c3: "carries_limits anthropic_free ?a prov mdl ?d3"
      using c2 carries_cong [OF w3] by simp
    have ok3: "windows_ok ?d3 now" using ok2 by (simp add: windows_ok_def)
    have nc3: "\<forall>c\<in>set (configs ?d3). c_provider c \<noteq> prov" using nc2 by simp
    note c4 = increment_windows_carries [OF unknown nc3 ok3 c3, of all_windows]
    have "snd (beforeProvider d now requestId prov mdl agentId sessionId requestData uuid)
          = snd (increment_windows ?d3 now ?a prov mdl all_windows)"
      using cq cw None av by (simp add: beforeProvider_def Let_def split: prod.splits sum.splits)
    with c4 show ?thesis by simp
  next
    case (Some wr)
    obtain wt r where wr: "wr = (wt, r)" by (cases wr)
    obtain er d3 where en: "enqueue d2 now ?a prov mdl requestData ?pri uuid = (er, d3)"
      by (cases "enqueue d2 now ?a prov mdl requestData ?pri uuid")
    have "d3 = snd (enqueue d2 now ?a prov mdl requestData ?pri uuid)" using en by simp
    then have w3: "windows d3 = windows d2" by simp
    have "windows (snd (beforeProvider d now requestId prov mdl agentId sessionId requestData uuid))
          = windows d2"
      using cq cw Some wr av en w3
      by (simp add: beforeProvider_def Let_def split: sum.splits)
    from carries_cong [OF this] c2 show ?thesis by simp
  qed
qed

text \<open>
  Claim C9, as amended. For every pre-call whose provider is unknown (not anthropic,
  openai or google, and without a stored limit configuration), limit resolution
  returns the built-in anthropic free limits (50 requests per minute, 1000 per day,
  40000 tokens per minute, 300000 per day), no input error is raised, and the
  admission decision is made under these limits: every would-exceed check is the
  decision under them on the usage of the key, and the request is admitted exactly
  when the usage of the minute horizon is below 50 requests and 40000 tokens and
  that of the day horizon below 1000 requests and 300000 tokens. At or above the
  minute limits a tenant that may not queue is refused with the rate-limit error of
  the minute horizon, which reports the limit 50; a key without an active window is
  admitted. (Store well-formed; the active windows of the key carry the anthropic
  free limits, as every window does that was created while the provider was
  unknown, and the pre-call keeps it so.)
\<close>

theorem unknown_provider_admitted_under_defaults:
  assumes unknown: "prov \<noteq> ''anthropic''" "prov \<noteq> ''openai''" "prov \<noteq> ''google''"
    and noconf: "\<forall>c\<in>set (configs d). c_provider c \<noteq> prov"
    and ok: "windows_ok d now"
    and lim: "carries_limits anthropic_free (wallet_of requestData agentId) prov mdl d"
  shows "fst (getLimits d now (wallet_of requestData agentId) prov mdl) = anthropic_free
     \<and> (\<forall>wt t. fst (wouldExceedLimit d now (wallet_of requestData agentId) prov mdl wt t)
                  = decision_under anthropic_free wt
                      (usage d now (wallet_of requestData agentId) prov mdl wt))
     \<and> (fst (beforeProvider d now requestId prov mdl agentId sessionId requestData uuid)
          = Admitted \<lparr>d_request_id = requestId, d_agent_wallet = wallet_of requestData agentId,
                      d_provider = prov, d_model = mdl, d_timestamp = now, d_allowed = True\<rparr>
        \<longleftrightarrow>
          fst (usage d now (wallet_of requestData agentId) prov mdl per_minute) < 50 \<and>
          snd (usage d now (wallet_of requestData agentId) prov mdl per_minute) < 40000 \<and>
          fst (usage d now (wallet_of requestData agentId) prov mdl per_day) < 1000 \<and>
          snd (usage d now (wallet_of requestData agentId) prov mdl per_day) < 300000)
     \<and> ((50 \<le> fst (usage d now (wallet_of requestData agentId) prov mdl per_minute) \<or>
          40000 \<le> snd (usage d now (wallet_of requestData agentId) prov mdl per_minute)) \<and>
         \<not> (tier (fst (checkQuotaAvailable d now (wallet_of requestData agentId))) = ProTier \<and>
            can_queue (fst (checkQuotaAvailable d now (wallet_of requestData agentId)))) \<longrightarrow>
         fst (beforeProvider d now requestId prov mdl agentId sessionId requestData uuid)
           = RateLimitExceededError per_minute
               \<lparr>exceeded = True,
                current = fst (usage d now (wallet_of requestData agentId) prov mdl per_minute),
                limit = 50,
                percentUsed
                  = of_int (fst (usage d now (wallet_of requestData agentId) prov mdl per_minute))
                    / 50 * 100\<rparr>)
     \<and> ((\<forall>w\<in>set (windows d).
            \<not> (w_agent_wallet w = wallet_of requestData agentId \<and> w_provider w = prov \<and>
               w_model w = mdl \<and> is_active w)) \<longrightarrow>
         fst (beforeProvider d now requestId prov mdl agentId sessionId requestData uuid)
           = Admitted \<lparr>d_request_id = requestId, d_agent_wallet = wallet_of requestData agentId,
                       d_provider = prov, d_model = mdl, d_timestamp = now, d_allowed = True\<rparr>)
     \<and> carries_limits anthropic_free (wallet_of requestData agentId) prov mdl
          (snd (beforeProvider d now requestId prov mdl agentId sessionId requestData uuid))"
proof -
  let ?a = "wallet_of requestData agentId"
  let ?rec = "\<lparr>d_request_id = requestId, d_agent_wallet = ?a,
               d_provider = prov, d_model = mdl, d_timestamp = now, d_allowed = True\<rparr>"
  let ?um = "usage d now ?a prov mdl per_minute"
  let ?ud = "usage d now ?a prov mdl per_day"
  let ?out = "fst (beforeProvider d now requestId prov mdl agentId sessionId requestData uuid)"
  obtain q d0 where cq: "checkQuotaAvailable d now ?a = (q, d0)"
    by (cases "checkQuotaAvailable d now ?a")
  have d0eq: "d0 = snd (checkQuotaAvailable d now ?a)" using cq by simp
  have q: "q = fst (checkQuotaAvailable d now ?a)" using cq by simp
  have d0: "windows d0 = windows d" "configs d0 = configs d"
    unfolding d0eq by simp_all
  have ok0: "windows_ok d0 now" using ok d0 by (simp add: windows_ok_def)
  have nc0: "\<forall>c\<in>set (configs d0). c_provider c \<noteq> prov" using noconf d0 by simp
  have lim0: "carries_limits anthropic_free ?a prov mdl d0"
    using lim carries_cong [OF d0(1)] by simp
  have us0: "usage d0 now ?a prov mdl wt = usage d now ?a prov mdl wt" for wt
    by (rule usage_cong [OF d0(1)])
  have av: "available q" using available_checkQuota [of d now ?a] cq by simp
  obtain w d2 where cw: "check_windows d0 now ?a prov mdl (tier q) all_windows = (w, d2)"
    by (cases "check_windows d0 now ?a prov mdl (tier q) all_windows")
  have d2: "d2 = snd (check_windows d0 now ?a prov mdl (tier q) all_windows)" using cw by simp
  have ok2: "windows_ok d2 now"
    unfolding d2 using check_windows_effect [OF ok0, of ?a prov mdl "tier q" all_windows] by blast
  have "(fst (check_windows d0 now ?a prov mdl (tier q) all_windows) = None) \<longleftrightarrow>
        (\<forall>wt\<in>set all_windows.
           \<not> exceeded (decision_under anthropic_free wt (usage d0 now ?a prov mdl wt)))"
    using check_windows_unknown [OF unknown nc0 ok0 lim0 distinct_all_windows, of "tier q"]
    by blast
  then have wn: "w = None \<longleftrightarrow>
      fst ?um < 50 \<and> snd ?um < 40000 \<and> fst ?ud < 1000 \<and> snd ?ud < 300000"
    using cw by (auto simp: us0 all_windows_def decision_under_anthropic_free)
  have adm: "?out = Admitted ?rec" if "w = None"
  proof -
    let ?d3 = "recordEvent d2 now (event_data ?a prov mdl ''allowed'' None requestId False)"
    have ok3: "windows_ok ?d3 now" using ok2 by (simp add: windows_ok_def)
    have "fst (increment_windows ?d3 now ?a prov mdl all_windows) = Inr ()"
      using increment_windows_effect [OF ok3 distinct_all_windows, of ?a prov mdl] by simp
    then obtain d4 where "increment_windows ?d3 now ?a prov mdl all_windows = (Inr (), d4)"
      by (cases "increment_windows ?d3 now ?a prov mdl all_windows") simp
    with cq cw that av show ?thesis by (simp add: beforeProvider_def Let_def)
  qed
  have nadm: "?out \<noteq> Admitted ?rec" if "w \<noteq> None"
  proof -
    from that obtain wt r where "w = Some (wt, r)" by (cases w) auto
    with cq cw av show ?thesis
      by (auto simp: beforeProvider_def Let_def split: prod.splits sum.splits)
  qed
  have 1: "fst (getLimits d now ?a prov mdl) = anthropic_free"
    by (rule unknown_provider_defaults [OF unknown noconf])
  have 2: "\<forall>wt t. fst (wouldExceedLimit d now ?a prov mdl wt t)
                  = decision_under anthropic_free wt (usage d now ?a prov mdl wt)"
    using wouldExceedLimit_unknown(1) [OF unknown noconf ok lim] by blast
  have 3: "?out = Admitted ?rec \<longleftrightarrow>
      fst ?um < 50 \<and> snd ?um < 40000 \<and> fst ?ud < 1000 \<and> snd ?ud < 300000"
    using adm nadm wn by blast
  have 4: "?out = RateLimitExceededError per_minute
               \<lparr>exceeded = True, current = fst ?um, limit = 50,
                percentUsed = of_int (fst ?um) / 50 * 100\<rparr>"
    if over: "50 \<le> fst ?um \<or> 40000 \<le> snd ?um"
      and nq: "\<not> (tier (fst (checkQuotaAvailable d now ?a)) = ProTier \<and>
                  can_queue (fst (checkQuotaAvailable d now ?a)))"
  proof -
    obtain chk d1 where we: "wouldExceedLimit d0 now ?a prov mdl per_minute (tier q) = (chk, d1)"
      by (cases "wouldExceedLimit d0 now ?a prov mdl per_minute (tier q)")
    have "chk = decision_under anthropic_free per_minute ?um"
      using wouldExceedLimit_unknown(1) [OF unknown nc0 ok0 lim0, of per_minute "tier q"] we
      by (simp add: us0)
    then have chk: "chk = \<lparr>exceeded = True, current = fst ?um, limit = 50,
                percentUsed = of_int (fst ?um) / 50 * 100\<rparr>"
      using over by (simp add: decision_under_anthropic_free)
    have "check_windows d0 now ?a prov mdl (tier q) all_windows = (Some (per_minute, chk), d1)"
      using we chk by (simp add: all_windows_def)
    with cq av nq chk show ?thesis
      unfolding q [symmetric] by (auto simp: beforeProvider_def Let_def)
  qed
  have 5: "?out = Admitted ?rec"
    if none: "\<forall>w\<in>set (windows d).
            \<not> (w_agent_wallet w = ?a \<and> w_provider w = prov \<and> w_model w = mdl \<and> is_active w)"
  proof -
    have "select_active d ?a prov mdl wt = None" for wt
      using none by (intro select_active_NoneI) (auto simp: window_matches_def)
    then have "usage d now ?a prov mdl wt = (0, 0)" for wt by (simp add: usage_def)
    with 3 show ?thesis by simp
  qed
  note 6 = beforeProvider_carries [OF unknown noconf ok lim, where requestId = requestId
      and sessionId = sessionId and uuid = uuid]
  from 1 2 3 4 5 6 show ?thesis by blast
qed

text \<open>The hypotheses hold for the store of tenant \<open>0xA\<close> with 50 requests to the
  provider \<open>cohere\<close> in the running minute window: the next request within that
  minute is refused under the limit 50, and a request after the window has run out
  is admitted.\<close>

theorem unknown_provider_admitted_under_defaults_witness:
  "''cohere'' \<noteq> ''anthropic'' \<and> ''cohere'' \<noteq> ''openai'' \<and> ''cohere'' \<noteq> ''google'' \<and>
   configs cohere_db = [] \<and>
   carries_limits anthropic_free ''0xA'' ''cohere'' None cohere_db \<and>
   windows_ok cohere_db 30000 \<and>
   usage cohere_db 30000 ''0xA'' ''cohere'' None per_minute = (50, 0) \<and>
   fst (beforeProvider cohere_db 30000 ''r51'' ''cohere'' None ''0xA'' ''s1'' plain_request ''u51'')
     = RateLimitExceededError per_minute
         \<lparr>exceeded = True, current = 50, limit = 50, percentUsed = 100\<rparr> \<and>
   windows_ok cohere_db 70000 \<and>
   usage cohere_db 70000 ''0xA'' ''cohere'' None per_minute = (0, 0) \<and>
   fst (beforeProvider cohere_db 70000 ''r52'' ''cohere'' None ''0xA'' ''s1'' plain_request ''u52'')
     = Admitted \<lparr>d_request_id = ''r52'', d_agent_wallet = ''0xA'', d_provider = ''cohere'',
                 d_model = None, d_timestamp = 70000, d_allowed = True\<rparr>"
proof -
  have w: "wallet_of plain_request ''0xA'' = ''0xA''"
    by (simp add: wallet_of_def plain_request_def)
  have h1: "''cohere'' \<noteq> ''anthropic''" "''cohere'' \<noteq> ''openai''" "''cohere'' \<noteq> ''google''"
    by simp_all
  have c: "configs cohere_db = []" by (simp add: cohere_db_def empty_db_def)
  have h2: "\<forall>c\<in>set (configs cohere_db). c_provider c \<noteq> ''cohere''" using c by simp
  have h3: "windows_ok cohere_db 30000" "windows_ok cohere_db 70000"
    by (simp_all add: windows_ok_def cohere_db_def used_window_def empty_db_def)
  have h4: "carries_limits anthropic_free ''0xA'' ''cohere'' None cohere_db"
    by (simp add: carries_limits_def cohere_db_def used_window_def empty_db_def
        getLimitForWindowType_def anthropic_free_def mk_limits_def or_null_def truthy_def)
  have h4': "carries_limits anthropic_free (wallet_of plain_request ''0xA'') ''cohere'' None cohere_db"
    using h4 w by simp
  have u1: "usage cohere_db 30000 ''0xA'' ''cohere'' None per_minute = (50, 0)"
    by code_simp
  have u2: "usage cohere_db 70000 ''0xA'' ''cohere'' None per_minute = (0, 0)"
    "usage cohere_db 70000 ''0xA'' ''cohere'' None per_day = (0, 0)"
    by code_simp+
  have nq: "\<not> (tier (fst (checkQuotaAvailable cohere_db 30000 ''0xA'')) = ProTier \<and>
               can_queue (fst (checkQuotaAvailable cohere_db 30000 ''0xA'')))"
    by code_simp
  from unknown_provider_admitted_under_defaults [OF h1 h2 h3(1) h4', where requestId = "''r51''"
      and sessionId = "''s1''" and uuid = "''u51''"] u1 nq
  have b: "fst (beforeProvider cohere_db 30000 ''r51'' ''cohere'' None ''0xA'' ''s1'' plain_request ''u51'')
     = RateLimitExceededError per_minute
         \<lparr>exceeded = True, current = 50, limit = 50, percentUsed = 100\<rparr>"
    unfolding w by simp
  from unknown_provider_admitted_under_defaults [OF h1 h2 h3(2) h4', where requestId = "''r52''"
      and sessionId = "''s1''" and uuid = "''u52''"] u2
  have a: "fst (beforeProvider cohere_db 70000 ''r52'' ''cohere'' None ''0xA'' ''s1'' plain_request ''u52'')
     = Admitted \<lparr>d_request_id = ''r52'', d_agent_wallet = ''0xA'', d_provider = ''cohere'',
                 d_model = None, d_timestamp = 70000, d_allowed = True\<rparr>"
    unfolding w by simp
  from h1 c h3 h4 u1 u2 a b show ?thesis by simp
qed

text \<open>
  Claim C9 as stated fails: the pre-call of a request to the unknown provider
  \<open>mistral\<close> on an empty store returns normally, and the three windows it creates
  carry the anthropic free limits.
\<close>

theorem unknown_provider_counterexample:
  "fst (beforeProvider empty_db 1000 ''r1'' ''mistral'' None ''0xA'' ''s1'' plain_request ''u1'')
     = Admitted \<lparr>d_request_id = ''r1'', d_agent_wallet = ''0xA'', d_provider = ''mistral'',
                 d_model = None, d_timestamp = 1000, d_allowed = True\<rparr> \<and>
   map limit_requests
     (windows (snd (beforeProvider empty_db 1000 ''r1'' ''mistral'' None ''0xA'' ''s1''
                      plain_request ''u1'')))
     = [Some 50, None, Some 1000] \<and>
   map limit_tokens
     (windows (snd (beforeProvider empty_db 1000 ''r1'' ''mistral'' None ''0xA'' ''s1''
                      plain_request ''u1'')))
     = [Some 40000, None, Some 300000]"
  by code_simp

end
